theory Spec2Isabelle
  imports Complex_Main "HOL-Library.Word"
begin

section \<open>The transaction memory pool of txmempool.cpp\<close>

text \<open>
  A shallow embedding of \<^verbatim>\<open>src/txmempool.cpp\<close>: the entry, the pool with its
  indexes and counters, insertion, the removal walk and the removal policies built on
  it, prioritisation, the fee-estimate file and the coins-view overlay.

  Conventions of the embedding.
  \<^item> \<^verbatim>\<open>uint256\<close> is a natural number; a transaction carries its hash as the field
    \<open>GetHash\<close>.
  \<^item> \<^verbatim>\<open>unsigned int\<close> is \<open>32 word\<close>, \<^verbatim>\<open>uint64_t\<close> and \<^verbatim>\<open>size_t\<close> are
    \<open>64 word\<close>: their arithmetic wraps as in C++. \<^verbatim>\<open>CAmount\<close> (a signed 64-bit
    integer whose overflow is undefined in C++) is an unbounded \<open>int\<close>.
  \<^item> \<^verbatim>\<open>double\<close> is idealised as \<open>real\<close>: rounding is not modelled.
  \<^item> A \<^verbatim>\<open>const CTransaction*\<close> that points into the primary index is represented by
    the transaction it addresses. Entries never change while they are pooled, so a
    dereference of a live pointer yields exactly this value.
  \<^item> A \<^verbatim>\<open>std::map\<close> that is only looked up, assigned and erased is a partial function;
    the primary index, which is also iterated, is a list of key/value pairs.
\<close>

subsection \<open>Data model\<close>

type_synonym uint256 = nat
type_synonym CAmount = int
type_synonym double = real

text \<open>\<^verbatim>\<open>COutPoint\<close>: hash and index of a transaction output.\<close>

datatype COutPoint = COutPoint (out_hash: uint256) (out_n: nat)

text \<open>\<^verbatim>\<open>JSDescription\<close> and \<^verbatim>\<open>SpendDescription\<close>: the fields the pool reads.\<close>

record JSDescription =
  js_anchor :: uint256
  nullifiers :: "uint256 list"

record SpendDescription =
  sd_anchor :: uint256
  nullifier :: uint256

text \<open>
  \<^verbatim>\<open>CTransaction\<close>. An input (\<^verbatim>\<open>CTxIn\<close>) is represented by its \<^verbatim>\<open>prevout\<close>, an output
  (\<^verbatim>\<open>CTxOut\<close>) by its \<^verbatim>\<open>nValue\<close>: the pool reads nothing else of them. The methods
  \<^verbatim>\<open>GetHash\<close>, \<^verbatim>\<open>IsCoinImport\<close>, \<^verbatim>\<open>GetValueOut\<close> and \<^verbatim>\<open>GetReserveValueOut\<close> are
  defined outside txmempool.cpp; their results are fields of the record.
\<close>

record CTransaction =
  GetHash :: uint256
  vin :: "COutPoint list"
  vout :: "CAmount list"
  vJoinSplit :: "JSDescription list"
  vShieldedSpend :: "SpendDescription list"
  IsCoinImport :: bool
  GetValueOut :: CAmount
  GetReserveValueOut :: CAmount

text \<open>\<^verbatim>\<open>CInPoint\<close>: the consuming transaction and the position of the input.\<close>

datatype CInPoint = CInPoint (in_ptx: CTransaction) (in_n: nat)

text \<open>
  \<^verbatim>\<open>ShieldedType\<close> is a C++ enumeration with the enumerators \<^verbatim>\<open>SPROUT\<close> and
  \<^verbatim>\<open>SAPLING\<close>; \<open>OtherShieldedType\<close> stands for every other value of its underlying type.
\<close>

datatype ShieldedType = SPROUT | SAPLING | OtherShieldedType nat

text \<open>\<^verbatim>\<open>CTxMemPoolEntry\<close>; the transaction is read through \<open>GetTx\<close>.\<close>

record CTxMemPoolEntry =
  GetTx :: CTransaction
  nFee :: CAmount
  nTxSize :: "64 word"
  nModSize :: "64 word"
  nUsageSize :: "64 word"
  nTime :: int
  dPriority :: double
  nHeight :: "32 word"
  hadNoDependencies :: bool
  spendsCoinbase :: bool
  hasReserve :: bool
  nBranchId :: "32 word"

text \<open>Types of the optional address and spent indexes and of the reserve annotation.\<close>

typedecl CMempoolAddressDeltaKey
typedecl CMempoolAddressDelta
typedecl CSpentIndexKey
typedecl CSpentIndexValue
typedecl CReserveTransactionDescriptor

text \<open>
  The fee estimator (\<^verbatim>\<open>CBlockPolicyEstimator\<close>, policy/fees.cpp) is a passive observer.
  The pool only calls it; the model records the calls in the order they are made.
\<close>

datatype estimator_call =
    ProcessTransaction CTxMemPoolEntry bool
  | RemoveTx uint256
  | ProcessBlock "32 word" "CTxMemPoolEntry list" bool

text \<open>
  \<^verbatim>\<open>CTxMemPool\<close>, together with the two global flags \<^verbatim>\<open>fAddressIndex\<close> and
  \<^verbatim>\<open>fSpentIndex\<close> that \<^verbatim>\<open>remove\<close> reads.

  Modelled from the spec: \<^verbatim>\<open>indexed_transaction_set\<close>, the type of \<open>mapTx\<close>, is declared
  in txmempool.h. It is the Primary Index, a mapping from transaction hash to Entry
  with unique keys that supports lookup, insert, erase and full iteration. Here it is a
  list of (hash, entry) pairs kept in ascending order of the hash.
\<close>

record CTxMemPool =
  mapTx :: "(uint256 \<times> CTxMemPoolEntry) list"
  mapNextTx :: "COutPoint \<rightharpoonup> CInPoint"
  mapSproutNullifiers :: "uint256 \<rightharpoonup> CTransaction"
  mapSaplingNullifiers :: "uint256 \<rightharpoonup> CTransaction"
  mapRecentlyAddedTx :: "uint256 \<rightharpoonup> CTransaction"
  nRecentlyAddedSequence :: "64 word"
  nTransactionsUpdated :: "32 word"
  totalTxSize :: "64 word"
  cachedInnerUsage :: "64 word"
  mapDeltas :: "uint256 \<rightharpoonup> (double \<times> CAmount)"
  mapReserveTransactions :: "uint256 \<rightharpoonup> CReserveTransactionDescriptor"
  mapAddress :: "CMempoolAddressDeltaKey \<rightharpoonup> CMempoolAddressDelta"
  mapAddressInserted :: "uint256 \<rightharpoonup> CMempoolAddressDeltaKey list"
  mapSpent :: "CSpentIndexKey \<rightharpoonup> CSpentIndexValue"
  mapSpentInserted :: "uint256 \<rightharpoonup> CSpentIndexKey list"
  minerPolicyEstimator :: "estimator_call list"
  nCheckFrequency :: "32 word"
  fAddressIndex :: bool
  fSpentIndex :: bool

text \<open>The pool after its constructor: every index empty, every counter zero.\<close>

definition empty_pool :: CTxMemPool where
  "empty_pool = \<lparr> mapTx = [], mapNextTx = Map.empty, mapSproutNullifiers = Map.empty,
     mapSaplingNullifiers = Map.empty, mapRecentlyAddedTx = Map.empty,
     nRecentlyAddedSequence = 0, nTransactionsUpdated = 0, totalTxSize = 0,
     cachedInnerUsage = 0, mapDeltas = Map.empty, mapReserveTransactions = Map.empty,
     mapAddress = Map.empty, mapAddressInserted = Map.empty, mapSpent = Map.empty,
     mapSpentInserted = Map.empty, minerPolicyEstimator = [], nCheckFrequency = 0,
     fAddressIndex = False,
     fSpentIndex = False \<rparr>"

subsection \<open>Operations on the containers\<close>

text \<open>\<^verbatim>\<open>mapTx.find(hash)\<close> and \<^verbatim>\<open>mapTx.count(hash)\<close>.\<close>

definition mapTx_find :: "CTxMemPool \<Rightarrow> uint256 \<Rightarrow> CTxMemPoolEntry option" where
  "mapTx_find pool h = map_of (mapTx pool) h"

definition mapTx_count :: "CTxMemPool \<Rightarrow> uint256 \<Rightarrow> nat" where
  "mapTx_count pool h = (case mapTx_find pool h of None \<Rightarrow> 0 | Some e \<Rightarrow> 1)"

text \<open>
  Modelled from the spec: \<^verbatim>\<open>exists\<close> is defined in txmempool.h; a hash present in the
  Primary Index is "in the pool".
\<close>

definition exists_tx :: "CTxMemPool \<Rightarrow> uint256 \<Rightarrow> bool" where
  "exists_tx pool h = (mapTx_count pool h \<noteq> 0)"

text \<open>
  \<^verbatim>\<open>mapTx.insert(entry)\<close>: the key is the hash of the entry's transaction; an entry
  whose key is already present is not inserted.
\<close>

definition mapTx_insert ::
  "CTxMemPoolEntry \<Rightarrow> (uint256 \<times> CTxMemPoolEntry) list \<Rightarrow> (uint256 \<times> CTxMemPoolEntry) list" where
  "mapTx_insert e l =
     (if GetHash (GetTx e) \<in> fst ` set l then l
      else insort_key fst (GetHash (GetTx e), e) l)"

text \<open>\<^verbatim>\<open>mapTx.erase(hash)\<close>.\<close>

definition mapTx_erase ::
  "uint256 \<Rightarrow> (uint256 \<times> CTxMemPoolEntry) list \<Rightarrow> (uint256 \<times> CTxMemPoolEntry) list" where
  "mapTx_erase h l = filter (\<lambda>kv. fst kv \<noteq> h) l"

text \<open>A loop of \<^verbatim>\<open>m.erase(k)\<close> over the keys \<open>ks\<close>, in order.\<close>

fun erase_all :: "'k list \<Rightarrow> ('k \<rightharpoonup> 'v) \<Rightarrow> ('k \<rightharpoonup> 'v)" where
  "erase_all [] m = m"
| "erase_all (k # ks) m = erase_all ks (m(k := None))"

text \<open>A loop of \<^verbatim>\<open>m[k] = v\<close> over the pairs \<open>kvs\<close>, in order.\<close>

fun assign_all :: "('k \<times> 'v) list \<Rightarrow> ('k \<rightharpoonup> 'v) \<Rightarrow> ('k \<rightharpoonup> 'v)" where
  "assign_all [] m = m"
| "assign_all ((k, v) # kvs) m = assign_all kvs (m(k \<mapsto> v))"

text \<open>
  The Sprout nullifiers of a transaction in the order of the nested \<^verbatim>\<open>BOOST_FOREACH\<close>
  loops over \<^verbatim>\<open>tx.vJoinSplit\<close> and \<^verbatim>\<open>joinsplit.nullifiers\<close>, and its Sapling nullifiers
  in the order of \<^verbatim>\<open>tx.vShieldedSpend\<close>.
\<close>

definition sprout_nullifiers :: "CTransaction \<Rightarrow> uint256 list" where
  "sprout_nullifiers tx = concat (map nullifiers (vJoinSplit tx))"

definition sapling_nullifiers :: "CTransaction \<Rightarrow> uint256 list" where
  "sapling_nullifiers tx = map nullifier (vShieldedSpend tx)"

subsection \<open>Prioritisation\<close>

text \<open>
  \<^verbatim>\<open>PrioritiseTransaction\<close>: \<^verbatim>\<open>mapDeltas[hash]\<close> creates a value-initialised pair
  \<open>(0.0, 0)\<close> when the key is absent; both deltas are then added to it. The log line
  has no effect on the pool.
\<close>

definition PrioritiseTransaction ::
  "uint256 \<Rightarrow> string \<Rightarrow> double \<Rightarrow> CAmount \<Rightarrow> CTxMemPool \<Rightarrow> CTxMemPool" where
  "PrioritiseTransaction hash strHash dPriorityDelta nFeeDelta pool =
     (let deltas = (case mapDeltas pool hash of None \<Rightarrow> (0, 0) | Some d \<Rightarrow> d)
      in pool\<lparr> mapDeltas := (mapDeltas pool)(hash \<mapsto>
           (fst deltas + dPriorityDelta, snd deltas + nFeeDelta)) \<rparr>)"

text \<open>
  \<^verbatim>\<open>ApplyDeltas\<close>: the two reference parameters are passed in and returned; the pool
  is only read.
\<close>

definition ApplyDeltas ::
  "CTxMemPool \<Rightarrow> uint256 \<Rightarrow> double \<times> CAmount \<Rightarrow> double \<times> CAmount" where
  "ApplyDeltas pool hash out =
     (case mapDeltas pool hash of
        None \<Rightarrow> out
      | Some deltas \<Rightarrow> (fst out + fst deltas, snd out + snd deltas))"

text \<open>\<^verbatim>\<open>ClearPrioritisation\<close>.\<close>

definition ClearPrioritisation :: "uint256 \<Rightarrow> CTxMemPool \<Rightarrow> CTxMemPool" where
  "ClearPrioritisation hash pool =
     pool\<lparr> mapDeltas := (mapDeltas pool)(hash := None),
           mapReserveTransactions := (mapReserveTransactions pool)(hash := None) \<rparr>"

subsection \<open>Nullifier lookup\<close>

text \<open>
  The exceptions that occur, with their messages; both classes derive from
  \<^verbatim>\<open>std::exception\<close>.
\<close>

datatype exn = runtime_error string | ios_base_failure string

text \<open>\<^verbatim>\<open>nullifierExists\<close>: the \<^verbatim>\<open>default\<close> branch of the switch throws.\<close>

definition nullifierExists :: "CTxMemPool \<Rightarrow> uint256 \<Rightarrow> ShieldedType \<Rightarrow> exn + bool" where
  "nullifierExists pool nf type =
     (case type of
        SPROUT \<Rightarrow> Inr (mapSproutNullifiers pool nf \<noteq> None)
      | SAPLING \<Rightarrow> Inr (mapSaplingNullifiers pool nf \<noteq> None)
      | OtherShieldedType k \<Rightarrow> Inl (runtime_error ''Unknown nullifier type''))"

subsection \<open>Insertion\<close>

text \<open>
  \<^verbatim>\<open>addUnchecked\<close>. \<^verbatim>\<open>mapTx.find(hash)\<close> is dereferenced without a test: when the hash
  passed is not a key after the insertion the behaviour is undefined, which is the
  result \<open>None\<close>. Otherwise the function returns \<^verbatim>\<open>true\<close> and the pool is the one given.
  When the hash was already a key, \<^verbatim>\<open>tx\<close> is the transaction that was there before.
  \<^verbatim>\<open>DynamicMemoryUsage()\<close> of an entry is its \<open>nUsageSize\<close>.
\<close>

definition addUnchecked ::
  "uint256 \<Rightarrow> CTxMemPoolEntry \<Rightarrow> bool \<Rightarrow> CTxMemPool \<Rightarrow> CTxMemPool option" where
  "addUnchecked hash entry fCurrentEstimate pool =
     (let pool1 = pool\<lparr> mapTx := mapTx_insert entry (mapTx pool) \<rparr>
      in case mapTx_find pool1 hash of
           None \<Rightarrow> None
         | Some found \<Rightarrow>
             (let tx = GetTx found
              in Some (pool1
                \<lparr> mapNextTx :=
                    (if \<not> IsCoinImport tx
                     then assign_all (map (\<lambda>i. (vin tx ! i, CInPoint tx i)) [0..<length (vin tx)])
                            (mapNextTx pool1)
                     else mapNextTx pool1),
                  mapSproutNullifiers :=
                    assign_all (map (\<lambda>nf. (nf, tx)) (sprout_nullifiers tx))
                      (mapSproutNullifiers pool1),
                  mapSaplingNullifiers :=
                    assign_all (map (\<lambda>nf. (nf, tx)) (sapling_nullifiers tx))
                      (mapSaplingNullifiers pool1),
                  mapRecentlyAddedTx := (mapRecentlyAddedTx pool1)(GetHash tx \<mapsto> tx),
                  nRecentlyAddedSequence := nRecentlyAddedSequence pool1 + 1,
                  nTransactionsUpdated := nTransactionsUpdated pool1 + 1,
                  totalTxSize := totalTxSize pool1 + nTxSize entry,
                  cachedInnerUsage := cachedInnerUsage pool1 + nUsageSize entry,
                  minerPolicyEstimator :=
                    minerPolicyEstimator pool1 @ [ProcessTransaction entry fCurrentEstimate] \<rparr>)))"

subsection \<open>Removal\<close>

text \<open>\<^verbatim>\<open>removeAddressIndex\<close> and \<^verbatim>\<open>removeSpentIndex\<close> (both return \<^verbatim>\<open>true\<close>).\<close>

definition removeAddressIndex :: "uint256 \<Rightarrow> CTxMemPool \<Rightarrow> CTxMemPool" where
  "removeAddressIndex txhash pool =
     (case mapAddressInserted pool txhash of
        None \<Rightarrow> pool
      | Some keys \<Rightarrow> pool\<lparr> mapAddress := erase_all keys (mapAddress pool),
                          mapAddressInserted := (mapAddressInserted pool)(txhash := None) \<rparr>)"

definition removeSpentIndex :: "uint256 \<Rightarrow> CTxMemPool \<Rightarrow> CTxMemPool" where
  "removeSpentIndex txhash pool =
     (case mapSpentInserted pool txhash of
        None \<Rightarrow> pool
      | Some keys \<Rightarrow> pool\<lparr> mapSpent := erase_all keys (mapSpent pool),
                          mapSpentInserted := (mapSpentInserted pool)(txhash := None) \<rparr>)"

text \<open>
  The loop that \<^verbatim>\<open>remove\<close> runs over the outputs of a transaction, in both places where
  it occurs: for every \<open>i\<close> below the number of outputs, when the Spend Index has an
  entry for \<open>COutPoint hash i\<close>, the hash of the consuming transaction is pushed to the
  back of \<open>txToRemove\<close>.
\<close>

definition push_spenders :: "CTxMemPool \<Rightarrow> uint256 \<Rightarrow> nat \<Rightarrow> uint256 list \<Rightarrow> uint256 list" where
  "push_spenders pool hash nout txToRemove =
     txToRemove @ concat (map (\<lambda>i. case mapNextTx pool (COutPoint hash i) of
                                      None \<Rightarrow> []
                                    | Some ip \<Rightarrow> [GetHash (in_ptx ip)]) [0..<nout])"

text \<open>
  The bookkeeping that the loop of \<^verbatim>\<open>remove\<close> does for a pooled hash, from
  \<^verbatim>\<open>mapRecentlyAddedTx.erase(hash)\<close> to \<^verbatim>\<open>ClearPrioritisation(tx.GetHash())\<close>, without
  the \<^verbatim>\<open>push_back\<close> to \<^verbatim>\<open>removed\<close>; \<open>e\<close> is the entry found for the hash.
\<close>

definition erase_entry :: "uint256 \<Rightarrow> CTxMemPoolEntry \<Rightarrow> CTxMemPool \<Rightarrow> CTxMemPool" where
  "erase_entry hash e pool =
     (let tx = GetTx e;
          pool1 = pool
            \<lparr> mapTx := mapTx_erase hash (mapTx pool),
              mapNextTx := erase_all (vin tx) (mapNextTx pool),
              mapSproutNullifiers := erase_all (sprout_nullifiers tx) (mapSproutNullifiers pool),
              mapSaplingNullifiers := erase_all (sapling_nullifiers tx) (mapSaplingNullifiers pool),
              mapRecentlyAddedTx := (mapRecentlyAddedTx pool)(hash := None),
              nTransactionsUpdated := nTransactionsUpdated pool + 1,
              totalTxSize := totalTxSize pool - nTxSize e,
              cachedInnerUsage := cachedInnerUsage pool - nUsageSize e,
              minerPolicyEstimator := minerPolicyEstimator pool @ [RemoveTx hash] \<rparr>;
          pool2 = (if fAddressIndex pool1 then removeAddressIndex hash pool1 else pool1);
          pool3 = (if fSpentIndex pool2 then removeSpentIndex hash pool2 else pool2)
      in ClearPrioritisation (GetHash tx) pool3)"

lemma mapTx_erase_entry [simp]: "mapTx (erase_entry h e pool) = mapTx_erase h (mapTx pool)"
  by (simp add: erase_entry_def Let_def ClearPrioritisation_def removeAddressIndex_def
      removeSpentIndex_def split: option.split)

lemma mapTx_erase_shorter:
  "map_of l h = Some e \<Longrightarrow> length (mapTx_erase h l) < length l"
proof (induction l)
  case Nil
  then show ?case by simp
next
  case (Cons kv l)
  have le: "length (filter (\<lambda>kv. fst kv \<noteq> h) l) \<le> length l"
    by (rule length_filter_le)
  show ?case
  proof (cases "fst kv = h")
    case True
    with le show ?thesis by (simp add: mapTx_erase_def less_Suc_eq_le)
  next
    case False
    with Cons have "map_of l h = Some e" by (cases kv) auto
    with Cons.IH False show ?thesis by (simp add: mapTx_erase_def)
  qed
qed

text \<open>
  The \<^verbatim>\<open>while (!txToRemove.empty())\<close> loop of \<^verbatim>\<open>remove\<close>. A hash that is not pooled is
  skipped; otherwise, when \<open>fRecursive\<close>, the spenders of its outputs are queued before
  its own bookkeeping is erased, and the transaction is pushed to \<open>removed\<close>. Every
  iteration either shortens the queue or removes an entry from \<open>mapTx\<close>.
\<close>

function remove_loop ::
  "bool \<Rightarrow> uint256 list \<Rightarrow> CTransaction list \<Rightarrow> CTxMemPool \<Rightarrow> CTransaction list \<times> CTxMemPool" where
  "remove_loop fRecursive [] removed pool = (removed, pool)"
| "remove_loop fRecursive (hash # txToRemove) removed pool =
     (case mapTx_find pool hash of
        None \<Rightarrow> remove_loop fRecursive txToRemove removed pool
      | Some e \<Rightarrow>
          remove_loop fRecursive
            (if fRecursive then push_spenders pool hash (length (vout (GetTx e))) txToRemove
             else txToRemove)
            (removed @ [GetTx e])
            (erase_entry hash e pool))"
  by pat_completeness auto
termination
  by (relation "measures [\<lambda>(f, q, r, p). length (mapTx p), \<lambda>(f, q, r, p). length q]")
     (auto simp: mapTx_find_def mapTx_erase_shorter)

text \<open>
  \<^verbatim>\<open>remove\<close>: the queue starts with the hash of \<open>origTx\<close>; when the removal is recursive
  and \<open>origTx\<close> is not pooled, the spenders of its outputs are queued as well.
\<close>

definition remove ::
  "CTransaction \<Rightarrow> CTransaction list \<Rightarrow> bool \<Rightarrow> CTxMemPool \<Rightarrow> CTransaction list \<times> CTxMemPool" where
  "remove origTx removed fRecursive pool =
     remove_loop fRecursive
       (if fRecursive \<and> mapTx_count pool (GetHash origTx) = 0
        then push_spenders pool (GetHash origTx) (length (vout origTx)) [GetHash origTx]
        else [GetHash origTx])
       removed pool"

text \<open>
  The closing loop of the removal policies: every collected transaction is removed
  recursively, each time into a fresh \<^verbatim>\<open>removed\<close> list that is dropped.
\<close>

fun remove_each :: "CTransaction list \<Rightarrow> CTxMemPool \<Rightarrow> CTxMemPool" where
  "remove_each [] pool = pool"
| "remove_each (tx # transactionsToRemove) pool =
     remove_each transactionsToRemove (snd (remove tx [] True pool))"

text \<open>
  \<^verbatim>\<open>removeWithAnchor\<close>. The first loop runs over the entries of \<open>mapTx\<close>; the switch on
  the shielded type is inside the loop body, so its \<^verbatim>\<open>default\<close> branch throws when the
  first entry is visited.
\<close>

fun anchor_scan ::
  "uint256 \<Rightarrow> ShieldedType \<Rightarrow> (uint256 \<times> CTxMemPoolEntry) list \<Rightarrow> CTransaction list
     \<Rightarrow> exn + CTransaction list" where
  "anchor_scan invalidRoot type [] transactionsToRemove = Inr transactionsToRemove"
| "anchor_scan invalidRoot type (it # rest) transactionsToRemove =
     (let tx = GetTx (snd it)
      in case type of
           SPROUT \<Rightarrow>
             anchor_scan invalidRoot type rest
               (if list_ex (\<lambda>joinsplit. js_anchor joinsplit = invalidRoot) (vJoinSplit tx)
                then transactionsToRemove @ [tx] else transactionsToRemove)
         | SAPLING \<Rightarrow>
             anchor_scan invalidRoot type rest
               (if list_ex (\<lambda>spendDescription. sd_anchor spendDescription = invalidRoot)
                     (vShieldedSpend tx)
                then transactionsToRemove @ [tx] else transactionsToRemove)
         | OtherShieldedType k \<Rightarrow> Inl (runtime_error ''Unknown shielded type''))"

definition removeWithAnchor :: "uint256 \<Rightarrow> ShieldedType \<Rightarrow> CTxMemPool \<Rightarrow> exn + CTxMemPool" where
  "removeWithAnchor invalidRoot type pool =
     (case anchor_scan invalidRoot type (mapTx pool) [] of
        Inl ex \<Rightarrow> Inl ex
      | Inr transactionsToRemove \<Rightarrow> Inr (remove_each transactionsToRemove pool))"

text \<open>
  \<^verbatim>\<open>removeConflicts\<close> runs the same loop body over the inputs, the Sprout nullifiers
  and the Sapling nullifiers of \<open>tx\<close>: look the key up in the index \<open>look\<close>; when there
  is an entry and the transaction it points to differs from \<open>tx\<close>, remove that
  transaction recursively. \<^verbatim>\<open>operator!=\<close> of \<^verbatim>\<open>CTransaction\<close> compares the hashes.
\<close>

fun remove_conflicting ::
  "(CTxMemPool \<Rightarrow> 'k \<Rightarrow> CTransaction option) \<Rightarrow> CTransaction \<Rightarrow> 'k list
     \<Rightarrow> CTransaction list \<Rightarrow> CTxMemPool \<Rightarrow> CTransaction list \<times> CTxMemPool" where
  "remove_conflicting look tx [] removed pool = (removed, pool)"
| "remove_conflicting look tx (k # ks) removed pool =
     (case look pool k of
        None \<Rightarrow> remove_conflicting look tx ks removed pool
      | Some txConflict \<Rightarrow>
          if GetHash txConflict \<noteq> GetHash tx
          then (case remove txConflict removed True pool of
                  (removed', pool') \<Rightarrow> remove_conflicting look tx ks removed' pool')
          else remove_conflicting look tx ks removed pool)"

definition spender_of :: "CTxMemPool \<Rightarrow> COutPoint \<Rightarrow> CTransaction option" where
  "spender_of pool prevout = map_option in_ptx (mapNextTx pool prevout)"

definition removeConflicts ::
  "CTransaction \<Rightarrow> CTransaction list \<Rightarrow> CTxMemPool \<Rightarrow> CTransaction list \<times> CTxMemPool" where
  "removeConflicts tx removed pool =
     (case remove_conflicting spender_of tx (vin tx) removed pool of
        (removed1, pool1) \<Rightarrow>
          (case remove_conflicting mapSproutNullifiers tx (sprout_nullifiers tx) removed1 pool1 of
             (removed2, pool2) \<Rightarrow>
               remove_conflicting mapSaplingNullifiers tx (sapling_nullifiers tx) removed2 pool2))"

text \<open>\<^verbatim>\<open>clear\<close>.\<close>

definition clear :: "CTxMemPool \<Rightarrow> CTxMemPool" where
  "clear pool = pool\<lparr> mapTx := [], mapNextTx := Map.empty, totalTxSize := 0,
     cachedInnerUsage := 0, nTransactionsUpdated := nTransactionsUpdated pool + 1 \<rparr>"

subsection \<open>Removal policies\<close>

text \<open>
  \<^verbatim>\<open>removeWithoutBranchId\<close>; \<^verbatim>\<open>GetValidatedBranchId()\<close> of an entry is its \<open>nBranchId\<close>.
\<close>

definition removeWithoutBranchId :: "32 word \<Rightarrow> CTxMemPool \<Rightarrow> CTxMemPool" where
  "removeWithoutBranchId nMemPoolBranchId pool =
     remove_each
       (map (\<lambda>it. GetTx (snd it))
          (filter (\<lambda>it. nBranchId (snd it) \<noteq> nMemPoolBranchId) (mapTx pool)))
       pool"

text \<open>
  \<^verbatim>\<open>removeExpired\<close>. \<^verbatim>\<open>IsExpiredTx\<close> is a parameter; \<open>interest\<close> is the value of the
  parenthesised conjunction that ends in the call of \<^verbatim>\<open>komodo_validate_interest\<close>. The
  source compares that boolean with \<^verbatim>\<open>< 0\<close>.
\<close>

definition removeExpired ::
  "(CTransaction \<Rightarrow> 32 word \<Rightarrow> bool) \<Rightarrow> (CTransaction \<Rightarrow> bool) \<Rightarrow> 32 word
     \<Rightarrow> CTxMemPool \<Rightarrow> CTxMemPool" where
  "removeExpired IsExpiredTx interest nBlockHeight pool =
     remove_each
       (map (\<lambda>it. GetTx (snd it))
          (filter (\<lambda>it. IsExpiredTx (GetTx (snd it)) nBlockHeight
                         \<or> (if interest (GetTx (snd it)) then 1 else 0) < (0 :: int))
             (mapTx pool)))
       pool"

text \<open>
  \<^verbatim>\<open>removeForReorg\<close>. The parameters stand for what the function asks of its
  surroundings: \<open>CheckFinalTx\<close> (with the flags applied), \<open>have_coins h\<close> for
  \<^verbatim>\<open>pcoins->AccessCoins(h)\<close> being non-null, and \<open>immature h\<close> for the maturity and
  time-lock condition on those coins. The inner loop over the inputs yields \<open>Some True\<close>
  when the transaction is to be removed, and \<open>None\<close> when \<^verbatim>\<open>assert(coins)\<close> fails.
\<close>

fun reorg_inputs ::
  "CTxMemPool \<Rightarrow> (uint256 \<Rightarrow> bool) \<Rightarrow> (uint256 \<Rightarrow> bool) \<Rightarrow> COutPoint list \<Rightarrow> bool option" where
  "reorg_inputs pool have_coins immature [] = Some False"
| "reorg_inputs pool have_coins immature (txin # rest) =
     (if mapTx_find pool (out_hash txin) \<noteq> None
      then reorg_inputs pool have_coins immature rest
      else if nCheckFrequency pool \<noteq> 0 \<and> \<not> have_coins (out_hash txin) then None
      else if \<not> have_coins (out_hash txin) \<or> immature (out_hash txin) then Some True
      else reorg_inputs pool have_coins immature rest)"

fun reorg_scan ::
  "CTxMemPool \<Rightarrow> (CTransaction \<Rightarrow> bool) \<Rightarrow> (uint256 \<Rightarrow> bool) \<Rightarrow> (uint256 \<Rightarrow> bool)
     \<Rightarrow> (uint256 \<times> CTxMemPoolEntry) list \<Rightarrow> CTransaction list \<Rightarrow> CTransaction list option" where
  "reorg_scan pool CheckFinalTx have_coins immature [] transactionsToRemove =
     Some transactionsToRemove"
| "reorg_scan pool CheckFinalTx have_coins immature (it # rest) transactionsToRemove =
     (let tx = GetTx (snd it)
      in if \<not> CheckFinalTx tx
         then reorg_scan pool CheckFinalTx have_coins immature rest (transactionsToRemove @ [tx])
         else if spendsCoinbase (snd it)
         then (case reorg_inputs pool have_coins immature (vin tx) of
                 None \<Rightarrow> None
               | Some True \<Rightarrow>
                   reorg_scan pool CheckFinalTx have_coins immature rest
                     (transactionsToRemove @ [tx])
               | Some False \<Rightarrow>
                   reorg_scan pool CheckFinalTx have_coins immature rest transactionsToRemove)
         else reorg_scan pool CheckFinalTx have_coins immature rest transactionsToRemove)"

definition removeForReorg ::
  "(CTransaction \<Rightarrow> bool) \<Rightarrow> (uint256 \<Rightarrow> bool) \<Rightarrow> (uint256 \<Rightarrow> bool)
     \<Rightarrow> CTxMemPool \<Rightarrow> CTxMemPool option" where
  "removeForReorg CheckFinalTx have_coins immature pool =
     (case reorg_scan pool CheckFinalTx have_coins immature (mapTx pool) [] of
        None \<Rightarrow> None
      | Some transactionsToRemove \<Rightarrow> Some (remove_each transactionsToRemove pool))"

text \<open>
  \<^verbatim>\<open>removeForBlock\<close>: the entries of the confirmed transactions are collected first;
  then each transaction is removed without recursion, its conflicts are removed and its
  prioritisation is cleared; the estimator is told about the block at the end.
\<close>

fun removeForBlock_loop ::
  "CTransaction list \<Rightarrow> CTransaction list \<Rightarrow> CTxMemPool \<Rightarrow> CTransaction list \<times> CTxMemPool" where
  "removeForBlock_loop [] conflicts pool = (conflicts, pool)"
| "removeForBlock_loop (tx # vtx) conflicts pool =
     (case remove tx [] False pool of
        (dummy, pool1) \<Rightarrow>
          (case removeConflicts tx conflicts pool1 of
             (conflicts', pool2) \<Rightarrow>
               removeForBlock_loop vtx conflicts' (ClearPrioritisation (GetHash tx) pool2)))"

definition removeForBlock ::
  "CTransaction list \<Rightarrow> 32 word \<Rightarrow> CTransaction list \<Rightarrow> bool \<Rightarrow> CTxMemPool
     \<Rightarrow> CTransaction list \<times> CTxMemPool" where
  "removeForBlock vtx nBlockHeight conflicts fCurrentEstimate pool =
     (let entries = concat (map (\<lambda>tx. case mapTx_find pool (GetHash tx) of
                                         None \<Rightarrow> [] | Some e \<Rightarrow> [e]) vtx)
      in case removeForBlock_loop vtx conflicts pool of
           (conflicts', pool') \<Rightarrow>
             (conflicts', pool'\<lparr> minerPolicyEstimator := minerPolicyEstimator pool'
                 @ [ProcessBlock nBlockHeight entries fCurrentEstimate] \<rparr>))"

subsection \<open>Sequences of calls\<close>

text \<open>
  The calls that change the pool's membership, with their arguments (for the policies:
  with the answers of the surroundings they depend on).
\<close>

datatype pool_call =
    AddUnchecked uint256 CTxMemPoolEntry bool
  | Remove CTransaction bool
  | RemoveConflicts CTransaction
  | RemoveWithAnchor uint256 ShieldedType
  | RemoveWithoutBranchId "32 word"
  | RemoveExpired "CTransaction \<Rightarrow> 32 word \<Rightarrow> bool" "CTransaction \<Rightarrow> bool" "32 word"
  | RemoveForReorg "CTransaction \<Rightarrow> bool" "uint256 \<Rightarrow> bool" "uint256 \<Rightarrow> bool"
  | RemoveForBlock "CTransaction list" "32 word" bool
  | Clear

text \<open>
  The pool after a call; \<open>None\<close> when the call does not return (undefined behaviour, a
  failed assertion, an exception). The lists of removed transactions start empty.
\<close>

fun apply_call :: "pool_call \<Rightarrow> CTxMemPool \<Rightarrow> CTxMemPool option" where
  "apply_call (AddUnchecked hash entry fCurrentEstimate) pool =
     addUnchecked hash entry fCurrentEstimate pool"
| "apply_call (Remove origTx fRecursive) pool = Some (snd (remove origTx [] fRecursive pool))"
| "apply_call (RemoveConflicts tx) pool = Some (snd (removeConflicts tx [] pool))"
| "apply_call (RemoveWithAnchor invalidRoot type) pool =
     (case removeWithAnchor invalidRoot type pool of Inl ex \<Rightarrow> None | Inr pool' \<Rightarrow> Some pool')"
| "apply_call (RemoveWithoutBranchId nMemPoolBranchId) pool =
     Some (removeWithoutBranchId nMemPoolBranchId pool)"
| "apply_call (RemoveExpired IsExpiredTx interest nBlockHeight) pool =
     Some (removeExpired IsExpiredTx interest nBlockHeight pool)"
| "apply_call (RemoveForReorg CheckFinalTx have_coins immature) pool =
     removeForReorg CheckFinalTx have_coins immature pool"
| "apply_call (RemoveForBlock vtx nBlockHeight fCurrentEstimate) pool =
     Some (snd (removeForBlock vtx nBlockHeight [] fCurrentEstimate pool))"
| "apply_call Clear pool = Some (clear pool)"

text \<open>
  A run of calls from a pool, under a contract \<open>ok\<close> that says which call is allowed in
  which pool: the result is the final pool when every call is allowed and returns.
\<close>

fun run ::
  "(CTxMemPool \<Rightarrow> pool_call \<Rightarrow> bool) \<Rightarrow> pool_call list \<Rightarrow> CTxMemPool \<Rightarrow> CTxMemPool option" where
  "run ok [] pool = Some pool"
| "run ok (c # cs) pool =
     (if ok pool c
      then (case apply_call c pool of None \<Rightarrow> None | Some pool' \<Rightarrow> run ok cs pool')
      else None)"

text \<open>The transactions in the pool, in the order of \<open>mapTx\<close>.\<close>

definition pool_txs :: "CTxMemPool \<Rightarrow> CTransaction list" where
  "pool_txs pool = map (\<lambda>it. GetTx (snd it)) (mapTx pool)"

subsection \<open>Coins-view overlay\<close>

text \<open>\<^verbatim>\<open>lookup\<close>: the out-parameter is set exactly when the result is \<^verbatim>\<open>true\<close>.\<close>

definition lookup :: "CTxMemPool \<Rightarrow> uint256 \<Rightarrow> CTransaction option" where
  "lookup pool hash = (case mapTx_find pool hash of None \<Rightarrow> None | Some e \<Rightarrow> Some (GetTx e))"

text \<open>
  What \<^verbatim>\<open>CCoinsViewMemPool\<close> uses of its surroundings, for a type \<open>'c\<close> of \<^verbatim>\<open>CCoins\<close>:
  the three queries of the backing view (\<^verbatim>\<open>base\<close>), where \<^verbatim>\<open>GetCoins\<close> returns its
  result together with the out-parameter as it leaves it, the constructor
  \<^verbatim>\<open>CCoins(tx, MEMPOOL_HEIGHT)\<close> and \<^verbatim>\<open>CCoins::IsPruned\<close>.
\<close>

record 'c CCoinsViewBacked =
  base_GetCoins :: "uint256 \<Rightarrow> 'c \<Rightarrow> bool \<times> 'c"
  base_GetNullifier :: "uint256 \<Rightarrow> ShieldedType \<Rightarrow> bool"
  base_HaveCoins :: "uint256 \<Rightarrow> bool"
  CCoins_of_tx :: "CTransaction \<Rightarrow> 'c"
  IsPruned :: "'c \<Rightarrow> bool"

text \<open>\<^verbatim>\<open>CCoinsViewMemPool::GetNullifier\<close>; the backing view is asked only after the pool.\<close>

definition GetNullifier ::
  "'c CCoinsViewBacked \<Rightarrow> CTxMemPool \<Rightarrow> uint256 \<Rightarrow> ShieldedType \<Rightarrow> exn + bool" where
  "GetNullifier view mempool nf type =
     (case nullifierExists mempool nf type of
        Inl ex \<Rightarrow> Inl ex
      | Inr found \<Rightarrow> Inr (found \<or> base_GetNullifier view nf type))"

text \<open>\<^verbatim>\<open>CCoinsViewMemPool::GetCoins\<close>: the result and the out-parameter \<open>coins\<close>.\<close>

definition GetCoins ::
  "'c CCoinsViewBacked \<Rightarrow> CTxMemPool \<Rightarrow> uint256 \<Rightarrow> 'c \<Rightarrow> bool \<times> 'c" where
  "GetCoins view mempool txid coins =
     (case lookup mempool txid of
        Some tx \<Rightarrow> (True, CCoins_of_tx view tx)
      | None \<Rightarrow>
          (case base_GetCoins view txid coins of
             (found, coins') \<Rightarrow> (found \<and> \<not> IsPruned view coins', coins')))"

text \<open>\<^verbatim>\<open>CCoinsViewMemPool::HaveCoins\<close>.\<close>

definition HaveCoins :: "'c CCoinsViewBacked \<Rightarrow> CTxMemPool \<Rightarrow> uint256 \<Rightarrow> bool" where
  "HaveCoins view mempool txid = (exists_tx mempool txid \<or> base_HaveCoins view txid)"

subsection \<open>Priority of an entry\<close>

text \<open>
  The currency state that \<^verbatim>\<open>ConnectedChains.GetCurrencyState\<close> returns (pbaas.h), as
  far as \<^verbatim>\<open>GetPriority\<close> uses it.
\<close>

record CCurrencyState =
  IsValid :: bool
  ReserveToNative :: "CAmount \<Rightarrow> CAmount"

text \<open>
  \<^verbatim>\<open>CTxMemPoolEntry::GetPriority\<close>. The currency-state provider is the parameter
  \<open>GetCurrencyState\<close>; it receives the value of the \<^verbatim>\<open>unsigned int\<close> expression
  \<^verbatim>\<open>currentHeight - 1\<close>. The local \<open>lastHeight\<close> is computed and not used, as in the
  source. Both subtractions are unsigned 32-bit subtractions. A division by
  \<open>nModSize = 0\<close> is not a finite number in C++; the theorems below assume
  \<open>nModSize \<noteq> 0\<close>.
\<close>

definition GetPriority ::
  "(32 word \<Rightarrow> CCurrencyState) \<Rightarrow> CTxMemPoolEntry \<Rightarrow> 32 word \<Rightarrow> double" where
  "GetPriority GetCurrencyState e currentHeight =
     (let nValueIn = GetValueOut (GetTx e) + nFee e;
          lastHeight = (if currentHeight < 1 then 0 else currentHeight - 1);
          nValueIn' =
            (if hasReserve e \<and> IsValid (GetCurrencyState (currentHeight - 1))
             then nValueIn + ReserveToNative (GetCurrencyState (currentHeight - 1))
                               (GetReserveValueOut (GetTx e))
             else nValueIn);
          deltaPriority =
            (real (unat (currentHeight - nHeight e)) * real_of_int nValueIn')
              / real (unat (nModSize e))
      in dPriority e + deltaPriority)"

text \<open>
  The priority as the specification words it: the seed plus
  (currentHeight - insertionHeight) * valueIn / modifiedSize, the heights taken as
  integers, where valueIn is the output value plus the fee plus, when the reserve flag
  is set and the provider keyed at currentHeight - 1 reports a valid state, the
  converted reserve output value.
\<close>

definition spec_valueIn :: "(32 word \<Rightarrow> CCurrencyState) \<Rightarrow> CTxMemPoolEntry \<Rightarrow> 32 word \<Rightarrow> CAmount" where
  "spec_valueIn GetCurrencyState e currentHeight =
     GetValueOut (GetTx e) + nFee e +
     (if hasReserve e \<and> IsValid (GetCurrencyState (currentHeight - 1))
      then ReserveToNative (GetCurrencyState (currentHeight - 1)) (GetReserveValueOut (GetTx e))
      else 0)"

definition spec_priority :: "(32 word \<Rightarrow> CCurrencyState) \<Rightarrow> CTxMemPoolEntry \<Rightarrow> 32 word \<Rightarrow> real" where
  "spec_priority GetCurrencyState e currentHeight =
     dPriority e +
     real_of_int ((uint currentHeight - uint (nHeight e))
                    * spec_valueIn GetCurrencyState e currentHeight)
       / real_of_int (uint (nModSize e))"

subsection \<open>Fee-estimate file\<close>

text \<open>
  \<^verbatim>\<open>CAutoFile\<close> as a stream of integers: the file handle is null, or the file holds the
  integers written so far (for a reader: the integers not yet read). Writing to or
  reading from a null handle throws, and so does reading past the end.
\<close>

datatype CAutoFile = NullFile | File "int list"

definition write_int :: "CAutoFile \<Rightarrow> int \<Rightarrow> exn + CAutoFile" where
  "write_int f x =
     (case f of
        NullFile \<Rightarrow> Inl (ios_base_failure ''CAutoFile::write: file handle is NULL'')
      | File xs \<Rightarrow> Inr (File (xs @ [x])))"

definition read_int :: "CAutoFile \<Rightarrow> exn + (int \<times> CAutoFile)" where
  "read_int f =
     (case f of
        NullFile \<Rightarrow> Inl (ios_base_failure ''CAutoFile::read: file handle is NULL'')
      | File [] \<Rightarrow> Inl (ios_base_failure ''CAutoFile::read: end of file'')
      | File (x # xs) \<Rightarrow> Inr (x, File xs))"

text \<open>
  \<^verbatim>\<open>WriteFeeEstimates\<close>. \<open>CLIENT_VERSION\<close> (clientversion.h) and the estimator's \<^verbatim>\<open>Write\<close>
  (policy/fees.cpp) are parameters; \<open>est_Write\<close> returns the file as it leaves it and
  the exception it throws, if any. The result is the boolean and the file.
\<close>

definition WriteFeeEstimates ::
  "int \<Rightarrow> (estimator_call list \<Rightarrow> CAutoFile \<Rightarrow> CAutoFile \<times> exn option)
     \<Rightarrow> CTxMemPool \<Rightarrow> CAutoFile \<Rightarrow> bool \<times> CAutoFile" where
  "WriteFeeEstimates CLIENT_VERSION est_Write pool fileout =
     (case write_int fileout 109900 of
        Inl ex \<Rightarrow> (False, fileout)
      | Inr fileout1 \<Rightarrow>
          (case write_int fileout1 CLIENT_VERSION of
             Inl ex \<Rightarrow> (False, fileout1)
           | Inr fileout2 \<Rightarrow>
               (case est_Write (minerPolicyEstimator pool) fileout2 of
                  (fileout3, Some ex) \<Rightarrow> (False, fileout3)
                | (fileout3, None) \<Rightarrow> (True, fileout3))))"

text \<open>
  \<^verbatim>\<open>ReadFeeEstimates\<close>. The estimator's \<^verbatim>\<open>Read\<close> is the parameter \<open>est_Read\<close>; it returns
  the estimator and the file as it leaves them and the exception it throws, if any.
  \<^verbatim>\<open>error(...)\<close> logs and returns \<^verbatim>\<open>false\<close>. The result is the boolean, the pool and the
  file.
\<close>

definition ReadFeeEstimates ::
  "int \<Rightarrow> (CAutoFile \<Rightarrow> estimator_call list \<Rightarrow> (estimator_call list \<times> CAutoFile) \<times> exn option)
     \<Rightarrow> CTxMemPool \<Rightarrow> CAutoFile \<Rightarrow> bool \<times> CTxMemPool \<times> CAutoFile" where
  "ReadFeeEstimates CLIENT_VERSION est_Read pool filein =
     (case read_int filein of
        Inl ex \<Rightarrow> (False, pool, filein)
      | Inr (nVersionRequired, filein1) \<Rightarrow>
          (case read_int filein1 of
             Inl ex \<Rightarrow> (False, pool, filein1)
           | Inr (nVersionThatWrote, filein2) \<Rightarrow>
               if nVersionRequired > CLIENT_VERSION then (False, pool, filein2)
               else (case est_Read filein2 (minerPolicyEstimator pool) of
                       ((est, filein3), Some ex) \<Rightarrow>
                         (False, pool\<lparr> minerPolicyEstimator := est \<rparr>, filein3)
                     | ((est, filein3), None) \<Rightarrow>
                         (True, pool\<lparr> minerPolicyEstimator := est \<rparr>, filein3))))"

subsection \<open>Invariants of the indexes\<close>

text \<open>
  The keys of \<open>mapTx\<close> are unique, and each entry is stored under the hash of its
  transaction.
\<close>

definition keys_ok :: "CTxMemPool \<Rightarrow> bool" where
  "keys_ok pool \<longleftrightarrow>
     distinct (map fst (mapTx pool))
     \<and> (\<forall>it \<in> set (mapTx pool). GetHash (GetTx (snd it)) = fst it)"

text \<open>
  The closure invariant of the Spend Index: every input of every pooled transaction that
  is not a coin import has an entry, and the entry points back to this transaction and
  the position of the input.
\<close>

definition spend_closed :: "CTxMemPool \<Rightarrow> bool" where
  "spend_closed pool \<longleftrightarrow>
     (\<forall>tx \<in> set (pool_txs pool). \<not> IsCoinImport tx \<longrightarrow>
        (\<forall>i < length (vin tx). mapNextTx pool (vin tx ! i) = Some (CInPoint tx i)))"

text \<open>
  Every entry of the Spend Index points to a pooled transaction that is not a coin
  import, and to one of its inputs that spends the key.
\<close>

definition spend_sound :: "CTxMemPool \<Rightarrow> bool" where
  "spend_sound pool \<longleftrightarrow>
     (\<forall>prevout ip. mapNextTx pool prevout = Some ip \<longrightarrow>
        in_ptx ip \<in> set (pool_txs pool) \<and> \<not> IsCoinImport (in_ptx ip)
        \<and> in_n ip < length (vin (in_ptx ip)) \<and> vin (in_ptx ip) ! in_n ip = prevout)"

text \<open>
  No outpoint is an input of two pooled transactions.
\<close>

definition inputs_disjoint :: "CTxMemPool \<Rightarrow> bool" where
  "inputs_disjoint pool \<longleftrightarrow>
     (\<forall>t1 \<in> set (pool_txs pool). \<forall>t2 \<in> set (pool_txs pool).
        t1 \<noteq> t2 \<longrightarrow> set (vin t1) \<inter> set (vin t2) = {})"

text \<open>
  The four conditions together.
\<close>

definition spend_wf :: "CTxMemPool \<Rightarrow> bool" where
  "spend_wf pool \<longleftrightarrow> keys_ok pool \<and> spend_closed pool \<and> spend_sound pool \<and> inputs_disjoint pool"

text \<open>
  The assignments that \<open>addUnchecked\<close> makes to the Spend Index, in order.
\<close>

definition input_pairs :: "CTransaction \<Rightarrow> (COutPoint \<times> CInPoint) list" where
  "input_pairs tx = map (\<lambda>i. (vin tx ! i, CInPoint tx i)) [0..<length (vin tx)]"

subsection \<open>Contracts of the callers\<close>

text \<open>
  The contract under which the Spend Index is claimed to be closed: only \<open>addUnchecked\<close>
  and \<open>remove\<close> are called; \<open>addUnchecked\<close> is never called with a hash that is already
  pooled, nor with a transaction that spends an outpoint that a pooled transaction
  spends.
\<close>

definition claimed_spend_contract :: "CTxMemPool \<Rightarrow> pool_call \<Rightarrow> bool" where
  "claimed_spend_contract pool c =
     (case c of
        AddUnchecked hash entry fCurrentEstimate \<Rightarrow>
          hash \<notin> fst ` set (mapTx pool)
          \<and> (\<forall>t \<in> set (pool_txs pool). set (vin t) \<inter> set (vin (GetTx entry)) = {})
      | Remove origTx fRecursive \<Rightarrow> True
      | _ \<Rightarrow> False)"

text \<open>The same contract, and no transaction lists one outpoint twice among its inputs.\<close>

definition spend_contract :: "CTxMemPool \<Rightarrow> pool_call \<Rightarrow> bool" where
  "spend_contract pool c =
     (claimed_spend_contract pool c
      \<and> (case c of
            AddUnchecked hash entry fCurrentEstimate \<Rightarrow> distinct (vin (GetTx entry))
          | _ \<Rightarrow> True))"

text \<open>
  The number of structural changes that a call of \<open>addUnchecked\<close> or \<open>remove\<close> applies to
  the pool: one for an insertion, and for a removal the number of transactions that it
  removes, which is the number it pushes to \<open>removed\<close>.
\<close>

fun call_changes :: "pool_call \<Rightarrow> CTxMemPool \<Rightarrow> nat" where
  "call_changes (AddUnchecked hash entry fCurrentEstimate) pool = 1"
| "call_changes (Remove origTx fRecursive) pool = length (fst (remove origTx [] fRecursive pool))"
| "call_changes c pool = 0"

text \<open>
  The number of structural changes of a sequence of calls.
\<close>

fun run_changes :: "pool_call list \<Rightarrow> CTxMemPool \<Rightarrow> nat" where
  "run_changes [] pool = 0"
| "run_changes (c # cs) pool =
     call_changes c pool
     + (case apply_call c pool of None \<Rightarrow> 0 | Some pool' \<Rightarrow> run_changes cs pool')"

text \<open>
  The sequences for which the counters are claimed to be coherent: any calls of
  \<open>addUnchecked\<close> and \<open>remove\<close>.
\<close>

definition claimed_counter_contract :: "CTxMemPool \<Rightarrow> pool_call \<Rightarrow> bool" where
  "claimed_counter_contract pool c =
     (case c of
        AddUnchecked hash entry fCurrentEstimate \<Rightarrow> True
      | Remove origTx fRecursive \<Rightarrow> True
      | _ \<Rightarrow> False)"

text \<open>
  The same, where \<open>addUnchecked\<close> is never called with a hash that is already pooled.
\<close>

definition counter_contract :: "CTxMemPool \<Rightarrow> pool_call \<Rightarrow> bool" where
  "counter_contract pool c =
     (case c of
        AddUnchecked hash entry fCurrentEstimate \<Rightarrow> hash \<notin> fst ` set (mapTx pool)
      | Remove origTx fRecursive \<Rightarrow> True
      | _ \<Rightarrow> False)"

text \<open>
  The sum of \<open>GetTxSize()\<close> over the entries of \<open>mapTx\<close>, in \<^verbatim>\<open>uint64_t\<close> arithmetic as
  \<^verbatim>\<open>check\<close> computes it.
\<close>

definition size_sum :: "CTxMemPool \<Rightarrow> 64 word" where
  "size_sum pool = sum_list (map (\<lambda>it. nTxSize (snd it)) (mapTx pool))"

text \<open>
  The keys are unique and the size counter is the sum of the sizes.
\<close>

definition size_ok :: "CTxMemPool \<Rightarrow> bool" where
  "size_ok pool \<longleftrightarrow> distinct (map fst (mapTx pool)) \<and> totalTxSize pool = size_sum pool"

text \<open>
  A nullifier index \<open>idx\<close> is in step with the pool, for the list \<open>nfs tx\<close> of the
  nullifiers a transaction spends: every nullifier of a pooled transaction is mapped to
  that transaction, no pooled transaction repeats a nullifier, and every entry of the
  index belongs to a pooled transaction that spends its key.
\<close>

definition nf_index_ok ::
  "(CTxMemPool \<Rightarrow> uint256 \<rightharpoonup> CTransaction) \<Rightarrow> (CTransaction \<Rightarrow> uint256 list) \<Rightarrow> CTxMemPool \<Rightarrow> bool" where
  "nf_index_ok idx nfs pool \<longleftrightarrow>
     (\<forall>tx \<in> set (pool_txs pool). distinct (nfs tx) \<and> (\<forall>nf \<in> set (nfs tx). idx pool nf = Some tx))
     \<and> (\<forall>nf tx. idx pool nf = Some tx \<longrightarrow> tx \<in> set (pool_txs pool) \<and> nf \<in> set (nfs tx))"

text \<open>
  Both nullifier indexes are in step with the pool.
\<close>

definition nullifier_wf :: "CTxMemPool \<Rightarrow> bool" where
  "nullifier_wf pool \<longleftrightarrow>
     keys_ok pool
     \<and> nf_index_ok mapSproutNullifiers sprout_nullifiers pool
     \<and> nf_index_ok mapSaplingNullifiers sapling_nullifiers pool"

text \<open>
  The states for which the nullifier indexes are claimed to be in step: those reached
  by any of the calls.
\<close>

definition claimed_nullifier_contract :: "CTxMemPool \<Rightarrow> pool_call \<Rightarrow> bool" where
  "claimed_nullifier_contract pool c = True"

text \<open>
  The contract under which they are: \<open>clear\<close> is not called, and \<open>addUnchecked\<close> is never
  called with a hash that is already pooled, nor with a transaction that repeats a
  nullifier or spends a nullifier that a pooled transaction spends.
\<close>

definition nullifier_contract :: "CTxMemPool \<Rightarrow> pool_call \<Rightarrow> bool" where
  "nullifier_contract pool c =
     (case c of
        AddUnchecked hash entry fCurrentEstimate \<Rightarrow>
          hash \<notin> fst ` set (mapTx pool)
          \<and> distinct (sprout_nullifiers (GetTx entry))
          \<and> distinct (sapling_nullifiers (GetTx entry))
          \<and> (\<forall>t \<in> set (pool_txs pool).
                set (sprout_nullifiers t) \<inter> set (sprout_nullifiers (GetTx entry)) = {}
                \<and> set (sapling_nullifiers t) \<inter> set (sapling_nullifiers (GetTx entry)) = {})
      | Clear \<Rightarrow> False
      | _ \<Rightarrow> True)"

subsection \<open>Example transactions\<close>

text \<open>An entry for a transaction, with fee 1000 and size 250, inserted at height 1.\<close>

definition entry_of :: "CTransaction \<Rightarrow> CTxMemPoolEntry" where
  "entry_of tx =
     \<lparr> GetTx = tx, nFee = 1000, nTxSize = 250, nModSize = 250, nUsageSize = 300, nTime = 0,
       dPriority = 0, nHeight = 1, hadNoDependencies = True, spendsCoinbase = False,
       hasReserve = False, nBranchId = 0 \<rparr>"

text \<open>
  \<open>tx_A\<close> spends an outpoint of a confirmed transaction and a Sprout note; \<open>tx_B\<close>
  spends output 0 of \<open>tx_A\<close>; \<open>tx_dup\<close> lists the same outpoint twice.
\<close>

definition tx_A :: CTransaction where
  "tx_A = \<lparr> GetHash = 1, vin = [COutPoint 100 0], vout = [50, 50],
            vJoinSplit = [\<lparr> js_anchor = 9, nullifiers = [7] \<rparr>], vShieldedSpend = [],
            IsCoinImport = False, GetValueOut = 100, GetReserveValueOut = 0 \<rparr>"

definition tx_B :: CTransaction where
  "tx_B = \<lparr> GetHash = 2, vin = [COutPoint 1 0], vout = [40],
            vJoinSplit = [], vShieldedSpend = [],
            IsCoinImport = False, GetValueOut = 40, GetReserveValueOut = 0 \<rparr>"

definition tx_dup :: CTransaction where
  "tx_dup = \<lparr> GetHash = 4, vin = [COutPoint 100 1, COutPoint 100 1], vout = [10],
              vJoinSplit = [], vShieldedSpend = [],
              IsCoinImport = False, GetValueOut = 10, GetReserveValueOut = 0 \<rparr>"

text \<open>
  \<open>tx_N\<close> spends the Sprout note that \<open>tx_A\<close> spends.
\<close>

definition tx_N :: CTransaction where
  "tx_N = \<lparr> GetHash = 5, vin = [COutPoint 101 0], vout = [10],
            vJoinSplit = [\<lparr> js_anchor = 8, nullifiers = [7] \<rparr>], vShieldedSpend = [],
            IsCoinImport = False, GetValueOut = 10, GetReserveValueOut = 0 \<rparr>"

section \<open>Properties\<close>

subsection \<open>Containers and bookkeeping\<close>

lemma erase_all_apply: "erase_all ks m k = (if k \<in> set ks then None else m k)"
  by (induction ks arbitrary: m) auto

lemma assign_all_eq: "assign_all kvs m = m ++ map_of (rev kvs)"
proof (induction kvs arbitrary: m)
  case Nil
  then show ?case by simp
next
  case (Cons kv kvs)
  obtain k v where kv: "kv = (k, v)" by (cases kv)
  have "assign_all (kv # kvs) m = m(k \<mapsto> v) ++ map_of (rev kvs)"
    unfolding kv assign_all.simps Cons.IH ..
  also have "\<dots> = m ++ map_of (rev (kv # kvs))"
    by (rule ext) (simp add: kv map_add_def split: option.split)
  finally show ?case .
qed

lemma assign_all_notin: "k \<notin> fst ` set kvs \<Longrightarrow> assign_all kvs m k = m k"
  by (simp add: assign_all_eq map_add_def map_of_eq_None_iff [THEN iffD2] split: option.split)

lemma assign_all_distinct:
  "distinct (map fst kvs) \<Longrightarrow> (k, v) \<in> set kvs \<Longrightarrow> assign_all kvs m k = Some v"
proof -
  assume d: "distinct (map fst kvs)" and i: "(k, v) \<in> set kvs"
  from d have "distinct (map fst (rev kvs))" by (simp add: rev_map [symmetric])
  with i have "map_of (rev kvs) k = Some v" by simp
  then show ?thesis by (simp add: assign_all_eq map_add_def)
qed

lemma assign_all_cases:
  "assign_all kvs m k = Some v \<Longrightarrow> (k, v) \<in> set kvs \<or> (k \<notin> fst ` set kvs \<and> m k = Some v)"
  by (auto simp: assign_all_eq map_add_def map_of_eq_None_iff split: option.splits dest: map_of_SomeD)

lemma map_of_insort_key:
  "map_of (insort_key fst (h, e) l) = (if h \<in> fst ` set l then map_of (insort_key fst (h, e) l) else (map_of l)(h \<mapsto> e))"
  by (induction l) (auto simp: fun_upd_twist)

lemma set_mapTx_insert:
  "set (mapTx_insert e l) = (if GetHash (GetTx e) \<in> fst ` set l then set l else insert (GetHash (GetTx e), e) (set l))"
  by (simp add: mapTx_insert_def set_insort_key)

lemma distinct_mapTx_insert:
  "distinct (map fst l) \<Longrightarrow> distinct (map fst (mapTx_insert e l))"
  by (simp add: mapTx_insert_def distinct_insort_key)

lemma set_mapTx_erase: "set (mapTx_erase h l) = {it \<in> set l. fst it \<noteq> h}"
  by (auto simp: mapTx_erase_def)

lemma distinct_mapTx_erase: "distinct (map fst l) \<Longrightarrow> distinct (map fst (mapTx_erase h l))"
  by (simp add: mapTx_erase_def distinct_map_filter)

lemma erase_entry_fields [simp]:
  "mapNextTx (erase_entry h e p) = erase_all (vin (GetTx e)) (mapNextTx p)"
  "mapSproutNullifiers (erase_entry h e p)
     = erase_all (sprout_nullifiers (GetTx e)) (mapSproutNullifiers p)"
  "mapSaplingNullifiers (erase_entry h e p)
     = erase_all (sapling_nullifiers (GetTx e)) (mapSaplingNullifiers p)"
  "totalTxSize (erase_entry h e p) = totalTxSize p - nTxSize e"
  "cachedInnerUsage (erase_entry h e p) = cachedInnerUsage p - nUsageSize e"
  "nTransactionsUpdated (erase_entry h e p) = nTransactionsUpdated p + 1"
  "nCheckFrequency (erase_entry h e p) = nCheckFrequency p"
  by (simp_all add: erase_entry_def Let_def ClearPrioritisation_def removeAddressIndex_def
      removeSpentIndex_def split: option.split)

lemma mapTx_find_mem:
  "keys_ok p \<Longrightarrow> mapTx_find p h = Some e \<longleftrightarrow> (h, e) \<in> set (mapTx p)"
  by (simp add: keys_ok_def mapTx_find_def)

lemma pool_txs_mem:
  "keys_ok p \<Longrightarrow> tx \<in> set (pool_txs p) \<Longrightarrow> (\<exists>e. mapTx_find p (GetHash tx) = Some e \<and> GetTx e = tx)"
  "keys_ok p \<Longrightarrow> (\<exists>e. mapTx_find p (GetHash tx) = Some e \<and> GetTx e = tx) \<Longrightarrow> tx \<in> set (pool_txs p)"
proof -
  assume k: "keys_ok p" and "tx \<in> set (pool_txs p)"
  then obtain it where it: "it \<in> set (mapTx p)" "GetTx (snd it) = tx"
    by (auto simp: pool_txs_def)
  with k have f: "fst it = GetHash tx" by (auto simp: keys_ok_def)
  have "(fst it, snd it) \<in> set (mapTx p)" using it(1) by simp
  then have "(GetHash tx, snd it) \<in> set (mapTx p)" unfolding f .
  with k it show "\<exists>e. mapTx_find p (GetHash tx) = Some e \<and> GetTx e = tx"
    by (auto simp: mapTx_find_mem)
next
  assume k: "keys_ok p" and "\<exists>e. mapTx_find p (GetHash tx) = Some e \<and> GetTx e = tx"
  then obtain e where "(GetHash tx, e) \<in> set (mapTx p)" "GetTx e = tx"
    by (auto simp: mapTx_find_mem)
  then show "tx \<in> set (pool_txs p)"
    unfolding pool_txs_def by force
qed

lemma keys_ok_erase: "keys_ok p \<Longrightarrow> keys_ok (erase_entry h e p)"
  by (auto simp: keys_ok_def distinct_mapTx_erase set_mapTx_erase)

lemma pool_txs_erase:
  assumes "keys_ok p" and "mapTx_find p h = Some e"
  shows "set (pool_txs (erase_entry h e p)) = set (pool_txs p) - {GetTx e}"
proof -
  from assms have mem: "(h, e) \<in> set (mapTx p)" by (simp add: mapTx_find_mem)
  have d: "distinct (map fst (mapTx p))"
    and k: "\<And>it. it \<in> set (mapTx p) \<Longrightarrow> GetHash (GetTx (snd it)) = fst it"
    using assms(1) by (auto simp: keys_ok_def)
  have he: "GetHash (GetTx e) = h" using k [OF mem] by simp
  have 1: "fst it = h" if m: "it \<in> set (mapTx p)" and eq: "GetTx (snd it) = GetTx e" for it
  proof -
    from m have "GetHash (GetTx (snd it)) = fst it" by (rule k)
    with eq he show "fst it = h" by simp
  qed
  have 2: "snd it = e" if m: "it \<in> set (mapTx p)" and f: "fst it = h" for it
  proof -
    have "(fst it, snd it) \<in> set (mapTx p)" using m by simp
    then have "(h, snd it) \<in> set (mapTx p)" unfolding f .
    from eq_key_imp_eq_value [OF d this mem] show ?thesis .
  qed
  have eqs: "set (pool_txs (erase_entry h e p))
      = (\<lambda>it. GetTx (snd it)) ` {it \<in> set (mapTx p). fst it \<noteq> h}"
    by (simp add: pool_txs_def set_mapTx_erase)
  show ?thesis
  proof (rule set_eqI, rule iffI)
    fix x assume "x \<in> set (pool_txs (erase_entry h e p))"
    then obtain it where it: "it \<in> set (mapTx p)" "fst it \<noteq> h" "x = GetTx (snd it)"
      unfolding eqs by blast
    from it(1,2) 1 have "GetTx (snd it) \<noteq> GetTx e" by blast
    with it show "x \<in> set (pool_txs p) - {GetTx e}" by (simp add: pool_txs_def)
  next
    fix x assume "x \<in> set (pool_txs p) - {GetTx e}"
    then obtain it where it: "it \<in> set (mapTx p)" "x = GetTx (snd it)" "x \<noteq> GetTx e"
      by (auto simp: pool_txs_def)
    from it 2 have "fst it \<noteq> h" by blast
    with it show "x \<in> set (pool_txs (erase_entry h e p))" unfolding eqs by blast
  qed
qed

lemma spend_wf_erase:
  assumes "spend_wf p" and "mapTx_find p h = Some e"
  shows "spend_wf (erase_entry h e p)"
proof -
  from assms(1) have k: "keys_ok p" and c: "spend_closed p" and s: "spend_sound p"
    and d: "inputs_disjoint p"
    by (simp_all add: spend_wf_def)
  note txs = pool_txs_erase [OF k assms(2)]
  from k assms(2) have e_in: "GetTx e \<in> set (pool_txs p)"
    by (force simp: mapTx_find_mem pool_txs_def)
  have "spend_closed (erase_entry h e p)"
    unfolding spend_closed_def
  proof (intro ballI impI allI)
    fix tx i
    assume tx: "tx \<in> set (pool_txs (erase_entry h e p))" and ni: "\<not> IsCoinImport tx"
      and i: "i < length (vin tx)"
    from tx txs have tx_in: "tx \<in> set (pool_txs p)" and ne: "tx \<noteq> GetTx e" by auto
    from d tx_in e_in ne have "set (vin tx) \<inter> set (vin (GetTx e)) = {}"
      by (simp add: inputs_disjoint_def)
    with i have "vin tx ! i \<notin> set (vin (GetTx e))" by (meson disjoint_iff nth_mem)
    moreover from c tx_in ni i have "mapNextTx p (vin tx ! i) = Some (CInPoint tx i)"
      by (simp add: spend_closed_def)
    ultimately show "mapNextTx (erase_entry h e p) (vin tx ! i) = Some (CInPoint tx i)"
      by (simp add: erase_all_apply)
  qed
  moreover have "spend_sound (erase_entry h e p)"
    unfolding spend_sound_def
  proof (intro allI impI)
    fix prevout ip
    assume a: "mapNextTx (erase_entry h e p) prevout = Some ip"
    then have notin: "prevout \<notin> set (vin (GetTx e))" and old: "mapNextTx p prevout = Some ip"
      by (auto simp: erase_all_apply split: if_splits)
    from s old have o: "in_ptx ip \<in> set (pool_txs p)" "\<not> IsCoinImport (in_ptx ip)"
      "in_n ip < length (vin (in_ptx ip))" "vin (in_ptx ip) ! in_n ip = prevout"
      by (auto simp: spend_sound_def)
    from o(3,4) notin have "in_ptx ip \<noteq> GetTx e" by (metis nth_mem)
    with o txs show "in_ptx ip \<in> set (pool_txs (erase_entry h e p)) \<and> \<not> IsCoinImport (in_ptx ip)
        \<and> in_n ip < length (vin (in_ptx ip)) \<and> vin (in_ptx ip) ! in_n ip = prevout"
      by simp
  qed
  moreover have "inputs_disjoint (erase_entry h e p)"
    using d txs by (simp add: inputs_disjoint_def)
  ultimately show ?thesis using keys_ok_erase [OF k] by (simp add: spend_wf_def)
qed

lemma map_of_insort_fresh:
  "h \<notin> fst ` set l \<Longrightarrow> map_of (insort_key fst (h, e) l) = (map_of l)(h \<mapsto> e)"
  using map_of_insort_key [of h e l] by simp

lemma addUnchecked_fresh:
  assumes "h = GetHash (GetTx e)" and "h \<notin> fst ` set (mapTx p)"
  shows "\<exists>p'. addUnchecked h e f p = Some p'
     \<and> mapTx p' = insort_key fst (h, e) (mapTx p)
     \<and> mapNextTx p' =
         (if \<not> IsCoinImport (GetTx e)
          then assign_all (map (\<lambda>i. (vin (GetTx e) ! i, CInPoint (GetTx e) i))
                  [0..<length (vin (GetTx e))]) (mapNextTx p)
          else mapNextTx p)
     \<and> mapSproutNullifiers p' =
         assign_all (map (\<lambda>nf. (nf, GetTx e)) (sprout_nullifiers (GetTx e))) (mapSproutNullifiers p)
     \<and> mapSaplingNullifiers p' =
         assign_all (map (\<lambda>nf. (nf, GetTx e)) (sapling_nullifiers (GetTx e))) (mapSaplingNullifiers p)
     \<and> nTransactionsUpdated p' = nTransactionsUpdated p + 1
     \<and> totalTxSize p' = totalTxSize p + nTxSize e
     \<and> cachedInnerUsage p' = cachedInnerUsage p + nUsageSize e"
  using assms
  by (simp add: addUnchecked_def mapTx_find_def mapTx_insert_def map_of_insort_fresh Let_def)

lemma input_pairs_fst: "map fst (input_pairs tx) = vin tx"
  by (simp add: input_pairs_def comp_def map_nth)

lemma input_pairs_mem:
  "(k, v) \<in> set (input_pairs tx) \<longleftrightarrow> (\<exists>i < length (vin tx). k = vin tx ! i \<and> v = CInPoint tx i)"
  by (auto simp: input_pairs_def)

lemma keys_ok_insort:
  assumes "keys_ok p" and "h = GetHash (GetTx e)" and "h \<notin> fst ` set (mapTx p)"
    and "mapTx p' = insort_key fst (h, e) (mapTx p)"
  shows "keys_ok p'" and "set (pool_txs p') = insert (GetTx e) (set (pool_txs p))"
  using assms by (auto simp: keys_ok_def distinct_insort_key set_insort_key pool_txs_def)

lemma spend_wf_add:
  assumes wf: "spend_wf p" and h: "h = GetHash (GetTx e)" and fresh: "h \<notin> fst ` set (mapTx p)"
    and dist: "distinct (vin (GetTx e))"
    and disj: "\<forall>t \<in> set (pool_txs p). set (vin t) \<inter> set (vin (GetTx e)) = {}"
    and add: "addUnchecked h e f p = Some p'"
  shows "spend_wf p'"
proof -
  let ?tx = "GetTx e"
  from wf have k: "keys_ok p" and c: "spend_closed p" and s: "spend_sound p"
    and d: "inputs_disjoint p"
    by (simp_all add: spend_wf_def)
  from addUnchecked_fresh [OF h fresh, of f] add
  have m: "mapTx p' = insort_key fst (h, e) (mapTx p)"
    and n: "mapNextTx p' = (if \<not> IsCoinImport ?tx then assign_all (input_pairs ?tx) (mapNextTx p)
                            else mapNextTx p)"
    by (simp_all add: input_pairs_def)
  note k' = keys_ok_insort [OF k h fresh m]
  have old: "mapNextTx p' o' = mapNextTx p o'" if "o' \<notin> set (vin ?tx)" for o'
  proof -
    have "fst ` set (input_pairs ?tx) = set (vin ?tx)"
      using input_pairs_fst [of ?tx] by (metis set_map)
    with that have "o' \<notin> fst ` set (input_pairs ?tx)" by simp
    then show ?thesis using n by (simp add: assign_all_notin)
  qed
  have new: "mapNextTx p' (vin ?tx ! i) = Some (CInPoint ?tx i)"
    if "\<not> IsCoinImport ?tx" and "i < length (vin ?tx)" for i
  proof -
    have "distinct (map fst (input_pairs ?tx))" using dist by (simp add: input_pairs_fst)
    moreover have "(vin ?tx ! i, CInPoint ?tx i) \<in> set (input_pairs ?tx)"
      using that by (auto simp: input_pairs_mem)
    ultimately show ?thesis using n that by (simp add: assign_all_distinct)
  qed
  have "spend_closed p'"
    unfolding spend_closed_def
  proof (intro ballI impI allI)
    fix tx i
    assume tx: "tx \<in> set (pool_txs p')" and ni: "\<not> IsCoinImport tx" and i: "i < length (vin tx)"
    show "mapNextTx p' (vin tx ! i) = Some (CInPoint tx i)"
    proof (cases "tx = ?tx")
      case True
      with new ni i show ?thesis by simp
    next
      case False
      with tx k' have tin: "tx \<in> set (pool_txs p)" by simp
      with disj i have "vin tx ! i \<notin> set (vin ?tx)" by (meson disjoint_iff nth_mem)
      moreover from c tin ni i have "mapNextTx p (vin tx ! i) = Some (CInPoint tx i)"
        by (simp add: spend_closed_def)
      ultimately show ?thesis by (simp add: old)
    qed
  qed
  moreover have "spend_sound p'"
    unfolding spend_sound_def
  proof (intro allI impI)
    fix prevout ip
    assume a: "mapNextTx p' prevout = Some ip"
    show "in_ptx ip \<in> set (pool_txs p') \<and> \<not> IsCoinImport (in_ptx ip)
        \<and> in_n ip < length (vin (in_ptx ip)) \<and> vin (in_ptx ip) ! in_n ip = prevout"
    proof (cases "\<not> IsCoinImport ?tx \<and> (prevout, ip) \<in> set (input_pairs ?tx)")
      case True
      then obtain i where "i < length (vin ?tx)" "prevout = vin ?tx ! i" "ip = CInPoint ?tx i"
        unfolding input_pairs_mem by blast
      with True k'(2) show ?thesis by simp
    next
      case False
      have "mapNextTx p prevout = Some ip"
      proof (cases "IsCoinImport ?tx")
        case True
        with a n show ?thesis by simp
      next
        case ni: False
        with a n have "assign_all (input_pairs ?tx) (mapNextTx p) prevout = Some ip" by simp
        from assign_all_cases [OF this] False ni show ?thesis by blast
      qed
      with s have "in_ptx ip \<in> set (pool_txs p) \<and> \<not> IsCoinImport (in_ptx ip)
        \<and> in_n ip < length (vin (in_ptx ip)) \<and> vin (in_ptx ip) ! in_n ip = prevout"
        unfolding spend_sound_def by blast
      with k'(2) show ?thesis by simp
    qed
  qed
  moreover have "inputs_disjoint p'"
    unfolding inputs_disjoint_def
  proof (intro ballI impI)
    fix t1 t2
    assume t1: "t1 \<in> set (pool_txs p')" and t2: "t2 \<in> set (pool_txs p')" and ne: "t1 \<noteq> t2"
    from t1 k'(2) have c1: "t1 = ?tx \<or> t1 \<in> set (pool_txs p)" by simp
    from t2 k'(2) have c2: "t2 = ?tx \<or> t2 \<in> set (pool_txs p)" by simp
    show "set (vin t1) \<inter> set (vin t2) = {}"
    proof (cases "t1 = ?tx")
      case True
      with ne c2 have "t2 \<in> set (pool_txs p)" by blast
      with disj have "set (vin t2) \<inter> set (vin ?tx) = {}" by (rule bspec)
      with True show ?thesis by (simp only: Int_commute)
    next
      case False
      with c1 have o1: "t1 \<in> set (pool_txs p)" by blast
      show ?thesis
      proof (cases "t2 = ?tx")
        case True
        from disj o1 have "set (vin t1) \<inter> set (vin ?tx) = {}" by (rule bspec)
        with True show ?thesis by simp
      next
        case False
        with c2 have "t2 \<in> set (pool_txs p)" by blast
        with d o1 ne show ?thesis unfolding inputs_disjoint_def by blast
      qed
    qed
  qed
  ultimately show ?thesis using k'(1) by (simp add: spend_wf_def)
qed

lemma remove_loop_preserves:
  assumes step: "\<And>h e p. P p \<Longrightarrow> mapTx_find p h = Some e \<Longrightarrow> P (erase_entry h e p)"
    and "P pool"
  shows "P (snd (remove_loop fRecursive q removed pool))"
  using assms(2)
proof (induction fRecursive q removed pool rule: remove_loop.induct)
  case (1 fRecursive removed pool)
  then show ?case by simp
next
  case (2 fRecursive hash txToRemove removed pool)
  show ?case
  proof (cases "mapTx_find pool hash")
    case None
    with 2 show ?thesis by simp
  next
    case (Some e)
    with 2 step show ?thesis by simp
  qed
qed

lemma remove_preserves:
  assumes "\<And>h e p. P p \<Longrightarrow> mapTx_find p h = Some e \<Longrightarrow> P (erase_entry h e p)" and "P pool"
  shows "P (snd (remove origTx removed fRecursive pool))"
  unfolding remove_def using assms by (rule remove_loop_preserves)

lemma run_invariant:
  assumes "run ok cs pool = Some pool'" and "P pool"
    and "\<And>p c p'. P p \<Longrightarrow> ok p c \<Longrightarrow> apply_call c p = Some p' \<Longrightarrow> P p'"
  shows "P pool'"
  using assms(1,2)
proof (induction cs arbitrary: pool)
  case Nil
  then show ?case by simp
next
  case (Cons c cs)
  from Cons.prems(1) have ok: "ok pool c"
    by (simp split: if_splits)
  with Cons.prems(1) obtain p1 where p1: "apply_call c pool = Some p1" "run ok cs p1 = Some pool'"
    by (auto split: option.splits)
  from assms(3) [OF Cons.prems(2) ok p1(1)] have "P p1" .
  with Cons.IH p1(2) show ?case by blast
qed

lemma addUnchecked_hash:
  assumes "addUnchecked h e f p = Some p'" and "h \<notin> fst ` set (mapTx p)"
  shows "h = GetHash (GetTx e)"
proof (rule ccontr)
  assume ne: "h \<noteq> GetHash (GetTx e)"
  have "h \<notin> fst ` set (mapTx_insert e (mapTx p))"
    using assms(2) ne by (auto simp: set_mapTx_insert)
  then have "map_of (mapTx_insert e (mapTx p)) h = None"
    by (simp add: map_of_eq_None_iff)
  with assms(1) show False
    by (simp add: addUnchecked_def mapTx_find_def Let_def)
qed

lemma spend_wf_empty: "spend_wf empty_pool"
  by (simp add: spend_wf_def keys_ok_def spend_closed_def spend_sound_def inputs_disjoint_def
      pool_txs_def empty_pool_def)

lemma spend_wf_step:
  assumes "spend_wf p" and "spend_contract p c" and "apply_call c p = Some p'"
  shows "spend_wf p'"
proof (cases c)
  case (AddUnchecked h e f)
  with assms(2) have fresh: "h \<notin> fst ` set (mapTx p)"
    and disj: "\<forall>t \<in> set (pool_txs p). set (vin t) \<inter> set (vin (GetTx e)) = {}"
    and dist: "distinct (vin (GetTx e))"
    by (simp_all add: spend_contract_def claimed_spend_contract_def)
  from assms(3) AddUnchecked have add: "addUnchecked h e f p = Some p'" by simp
  from addUnchecked_hash [OF add fresh] have h: "h = GetHash (GetTx e)" .
  from spend_wf_add [OF assms(1) h fresh dist disj add] show ?thesis .
next
  case (Remove origTx fRecursive)
  with assms(3) have "p' = snd (remove origTx [] fRecursive p)" by simp
  moreover have "spend_wf (snd (remove origTx [] fRecursive p))"
    using spend_wf_erase assms(1) by (rule remove_preserves)
  ultimately show ?thesis by simp
qed (use assms(2) in \<open>simp_all add: spend_contract_def claimed_spend_contract_def\<close>)

subsection \<open>Closure of the Spend Index\<close>

text \<open>
  C1, as the claim states it, fails: \<open>addUnchecked\<close> validates nothing, and a
  transaction that lists one outpoint twice overwrites its own entry. After \<open>tx_dup\<close>
  is added to the empty pool, which the claimed contract allows, it is pooled and the
  entry for the outpoint of its input 0 points to input position 1.
\<close>

theorem spend_index_duplicate_input:
  "map_option (\<lambda>pool. (map fst (mapTx pool), mapNextTx pool (vin tx_dup ! 0)))
     (run claimed_spend_contract [AddUnchecked 4 (entry_of tx_dup) True] empty_pool)
   = Some ([4], Some (CInPoint tx_dup 1))"
  by (simp add: claimed_spend_contract_def addUnchecked_def mapTx_insert_def mapTx_find_def
      pool_txs_def empty_pool_def entry_of_def tx_dup_def Let_def)

text \<open>
  C1, amended. In every pool reached from the empty pool by calls of \<open>addUnchecked\<close>
  and \<open>remove\<close>, where no call of \<open>addUnchecked\<close> passes a hash that is already pooled,
  a transaction that spends an outpoint spent by a pooled transaction, or a transaction
  that lists one outpoint twice: for every pooled transaction that is not a coin import
  and every input position \<open>i\<close> of it, the Spend Index maps the outpoint of input \<open>i\<close>
  to exactly this transaction and position \<open>i\<close>. (A map holds at most one entry for a
  key.)
\<close>

theorem spend_index_closure:
  assumes "run spend_contract cs empty_pool = Some pool"
  shows "\<forall>it \<in> set (mapTx pool). \<not> IsCoinImport (GetTx (snd it)) \<longrightarrow>
           (\<forall>i < length (vin (GetTx (snd it))).
              mapNextTx pool (vin (GetTx (snd it)) ! i) = Some (CInPoint (GetTx (snd it)) i))"
proof -
  have "spend_wf pool"
    using assms spend_wf_empty spend_wf_step by (rule run_invariant)
  then have "spend_closed pool" by (simp add: spend_wf_def)
  then show ?thesis by (simp add: spend_closed_def pool_txs_def)
qed

theorem spend_index_closure_witness:
  "run spend_contract
     [AddUnchecked 1 (entry_of tx_A) True, AddUnchecked 2 (entry_of tx_B) True,
      Remove tx_A False] empty_pool \<noteq> None
   \<and> map_option (\<lambda>pool. (map fst (mapTx pool), mapNextTx pool (COutPoint 1 0)))
       (run spend_contract
          [AddUnchecked 1 (entry_of tx_A) True, AddUnchecked 2 (entry_of tx_B) True,
           Remove tx_A False] empty_pool)
     = Some ([2], Some (CInPoint tx_B 0))"
proof -
  let ?cs = "[AddUnchecked 1 (entry_of tx_A) True, AddUnchecked 2 (entry_of tx_B) True,
      Remove tx_A False]"
  obtain pool where r: "run spend_contract ?cs empty_pool = Some pool"
    and k: "map fst (mapTx pool) = [2]" and t: "map (\<lambda>it. GetTx (snd it)) (mapTx pool) = [tx_B]"
    by (simp add: spend_contract_def claimed_spend_contract_def addUnchecked_def
        mapTx_insert_def mapTx_find_def mapTx_count_def pool_txs_def empty_pool_def entry_of_def
        tx_A_def tx_B_def Let_def remove_def erase_entry_def mapTx_erase_def
        ClearPrioritisation_def sprout_nullifiers_def sapling_nullifiers_def)
  from t obtain it where it: "it \<in> set (mapTx pool)" "GetTx (snd it) = tx_B"
    by (cases "mapTx pool") auto
  from spend_index_closure [OF r] it
  have "mapNextTx pool (vin tx_B ! 0) = Some (CInPoint tx_B 0)"
    by (auto simp: tx_B_def)
  then have "mapNextTx pool (COutPoint 1 0) = Some (CInPoint tx_B 0)"
    by (simp add: tx_B_def)
  with r k show ?thesis by simp
qed

subsection \<open>Counters\<close>

lemma sum_list_insort_key:
  "sum_list (map f (insort_key k x xs)) = f x + sum_list (map f xs)"
  for f :: "'a \<Rightarrow> 64 word"
  by (induction xs) (simp_all add: ac_simps)

lemma sum_list_erase:
  fixes f :: "uint256 \<times> 'b \<Rightarrow> 64 word"
  assumes "distinct (map fst l)" and "(h, e) \<in> set l"
  shows "sum_list (map f (filter (\<lambda>kv. fst kv \<noteq> h) l)) = sum_list (map f l) - f (h, e)"
  using assms
proof (induction l)
  case Nil
  then show ?case by simp
next
  case (Cons kv l)
  show ?case
  proof (cases "kv = (h, e)")
    case True
    with Cons.prems have "h \<notin> fst ` set l" by auto
    then have "filter (\<lambda>kv. fst kv \<noteq> h) l = l"
      by (simp add: filter_id_conv) (metis fst_conv image_eqI prod.collapse)
    with True show ?thesis by simp
  next
    case False
    with Cons.prems have mem: "(h, e) \<in> set l" and d: "distinct (map fst l)" by auto
    from mem Cons.prems(1) have "fst kv \<noteq> h" by (auto simp: image_iff)
    with Cons.IH [OF d mem] show ?thesis by simp
  qed
qed

lemma size_ok_erase:
  assumes "size_ok p" and "mapTx_find p h = Some e"
  shows "size_ok (erase_entry h e p)"
proof -
  from assms(1) have d: "distinct (map fst (mapTx p))" and t: "totalTxSize p = size_sum p"
    by (simp_all add: size_ok_def)
  from d assms(2) have mem: "(h, e) \<in> set (mapTx p)" by (simp add: mapTx_find_def)
  from sum_list_erase [OF d mem, of "\<lambda>it. nTxSize (snd it)"] t
  have "totalTxSize (erase_entry h e p) = size_sum (erase_entry h e p)"
    by (simp add: size_sum_def mapTx_erase_def)
  with d show ?thesis by (simp add: size_ok_def distinct_mapTx_erase)
qed

lemma size_ok_add:
  assumes "size_ok p" and "h \<notin> fst ` set (mapTx p)" and add: "addUnchecked h e f p = Some p'"
  shows "size_ok p'"
proof -
  from addUnchecked_hash [OF add assms(2)] have h: "h = GetHash (GetTx e)" .
  from addUnchecked_fresh [OF h assms(2), of f] add
  have m: "mapTx p' = insort_key fst (h, e) (mapTx p)"
    and t: "totalTxSize p' = totalTxSize p + nTxSize e"
    by simp_all
  from assms(1) have d: "distinct (map fst (mapTx p))" and s: "totalTxSize p = size_sum p"
    by (simp_all add: size_ok_def)
  have "size_sum p' = nTxSize e + size_sum p"
    unfolding size_sum_def m by (simp add: sum_list_insort_key)
  with t s have "totalTxSize p' = size_sum p'" by simp
  moreover have "distinct (map fst (mapTx p'))"
    unfolding m using d assms(2) by (simp add: distinct_insort_key)
  ultimately show ?thesis by (simp add: size_ok_def)
qed

lemma size_ok_step:
  assumes "size_ok p" and "counter_contract p c" and "apply_call c p = Some p'"
  shows "size_ok p'"
proof (cases c)
  case (AddUnchecked h e f)
  with assms(2) have fresh: "h \<notin> fst ` set (mapTx p)" by (simp add: counter_contract_def)
  from assms(3) AddUnchecked have add: "addUnchecked h e f p = Some p'" by simp
  from size_ok_add [OF assms(1) fresh add] show ?thesis .
next
  case (Remove origTx fRecursive)
  with assms(3) have "p' = snd (remove origTx [] fRecursive p)" by simp
  moreover have "size_ok (snd (remove origTx [] fRecursive p))"
    using size_ok_erase assms(1) by (rule remove_preserves)
  ultimately show ?thesis by simp
qed (use assms(2) in \<open>simp_all add: counter_contract_def\<close>)

lemma remove_loop_count:
  "length removed \<le> length (fst (remove_loop fRecursive q removed pool))
   \<and> nTransactionsUpdated (snd (remove_loop fRecursive q removed pool))
       = nTransactionsUpdated pool
         + of_nat (length (fst (remove_loop fRecursive q removed pool)) - length removed)"
proof (induction fRecursive q removed pool rule: remove_loop.induct)
  case (1 fRecursive removed pool)
  then show ?case by simp
next
  case (2 fRecursive hash txToRemove removed pool)
  show ?case
  proof (cases "mapTx_find pool hash")
    case None
    with 2 show ?thesis by simp
  next
    case (Some e)
    let ?q = "if fRecursive then push_spenders pool hash (length (vout (GetTx e))) txToRemove
              else txToRemove"
    let ?r = "remove_loop fRecursive ?q (removed @ [GetTx e]) (erase_entry hash e pool)"
    from 2(2) [OF Some]
    have le: "length (removed @ [GetTx e]) \<le> length (fst ?r)"
      and n: "nTransactionsUpdated (snd ?r) = nTransactionsUpdated (erase_entry hash e pool)
            + of_nat (length (fst ?r) - length (removed @ [GetTx e]))"
      by simp_all
    from le have "Suc (length (fst ?r) - Suc (length removed)) = length (fst ?r) - length removed"
      by simp
    then have "(1 :: 32 word) + of_nat (length (fst ?r) - Suc (length removed))
        = of_nat (length (fst ?r) - length removed)"
      by (metis of_nat_Suc add.commute)
    with le n Some show ?thesis by (simp add: add.assoc)
  qed
qed

lemma remove_count:
  "nTransactionsUpdated (snd (remove origTx removed fRecursive pool))
     = nTransactionsUpdated pool
       + of_nat (length (fst (remove origTx removed fRecursive pool)) - length removed)"
  unfolding remove_def using remove_loop_count by blast

lemma remove_pooled_count:
  assumes "mapTx_find pool (GetHash origTx) = Some e"
  shows "length removed < length (fst (remove origTx removed fRecursive pool))"
proof -
  let ?q = "if fRecursive then push_spenders pool (GetHash origTx) (length (vout (GetTx e))) []
            else []"
  from assms have c: "mapTx_count pool (GetHash origTx) \<noteq> 0" by (simp add: mapTx_count_def)
  from remove_loop_count [of "removed @ [GetTx e]" fRecursive ?q "erase_entry (GetHash origTx) e pool"]
  have "length (removed @ [GetTx e]) \<le> length (fst (remove_loop fRecursive ?q
      (removed @ [GetTx e]) (erase_entry (GetHash origTx) e pool)))"
    by blast
  with assms c show ?thesis by (simp add: remove_def)
qed

lemma addUnchecked_count:
  "addUnchecked h e f p = Some p' \<Longrightarrow> nTransactionsUpdated p' = nTransactionsUpdated p + 1"
  by (auto simp: addUnchecked_def Let_def split: option.splits)

lemma run_changes_count:
  assumes "run counter_contract cs pool = Some pool'"
  shows "nTransactionsUpdated pool' = nTransactionsUpdated pool + of_nat (run_changes cs pool)"
  using assms
proof (induction cs arbitrary: pool)
  case Nil
  then show ?case by simp
next
  case (Cons c cs)
  from Cons.prems have ok: "counter_contract pool c" by (simp split: if_splits)
  with Cons.prems obtain p1 where p1: "apply_call c pool = Some p1"
      "run counter_contract cs p1 = Some pool'"
    by (auto split: option.splits)
  from Cons.IH [OF p1(2)]
  have ih: "nTransactionsUpdated pool' = nTransactionsUpdated p1 + of_nat (run_changes cs p1)" .
  have "nTransactionsUpdated p1 = nTransactionsUpdated pool + of_nat (call_changes c pool)"
  proof (cases c)
    case (AddUnchecked h e f)
    with p1(1) show ?thesis by (simp add: addUnchecked_count)
  next
    case (Remove origTx fRecursive)
    with p1(1) remove_count [of origTx "[]" fRecursive pool] show ?thesis by auto
  qed (use ok in \<open>simp_all add: counter_contract_def\<close>)
  with ih p1(1) show ?case by (simp add: add.assoc)
qed

lemma run_changes_prefix: "run_changes cs1 pool \<le> run_changes (cs1 @ cs2) pool"
  by (induction cs1 arbitrary: pool) (auto split: option.splits)

lemma size_ok_empty: "size_ok empty_pool"
  by (simp add: size_ok_def size_sum_def empty_pool_def)

text \<open>
  C4, as the claim states it, fails: \<open>addUnchecked\<close> adds the size of the entry to the
  counter also when the hash is already pooled and nothing is inserted. After \<open>tx_A\<close>
  is added twice, the pool holds one entry of size 250 and the size counter is 500.
\<close>

theorem counter_after_reinsertion:
  "map_option (\<lambda>pool. (map fst (mapTx pool), totalTxSize pool, size_sum pool))
     (run claimed_counter_contract
        [AddUnchecked 1 (entry_of tx_A) True, AddUnchecked 1 (entry_of tx_A) True] empty_pool)
   = Some ([1], 500, 250)"
  by (simp add: claimed_counter_contract_def addUnchecked_def mapTx_insert_def mapTx_find_def
      size_sum_def empty_pool_def entry_of_def tx_A_def Let_def)

text \<open>
  C4, amended. After any sequence of \<open>addUnchecked\<close> and \<open>remove\<close> calls from the empty
  pool in which \<open>addUnchecked\<close> is never called with a hash that is already pooled, the
  size counter equals the sum of the sizes of the pooled entries (in 64-bit
  arithmetic), and the update counter equals the number of structural changes, one per
  insertion and one per transaction removed, as a 32-bit unsigned number, which is the
  number itself while it is below \<open>2 ^ 32\<close>. The number of changes never decreases
  along the sequence. In the pool reached, every insertion advances the update counter
  by one and every \<open>remove\<close> advances it by the number of transactions it removes, which
  is at least one when the transaction passed is pooled.
\<close>

theorem counter_coherence:
  assumes "run counter_contract cs empty_pool = Some pool"
  shows "totalTxSize pool = sum_list (map (\<lambda>it. nTxSize (snd it)) (mapTx pool))
     \<and> nTransactionsUpdated pool = of_nat (run_changes cs empty_pool)
     \<and> (run_changes cs empty_pool < 2 ^ 32
          \<longrightarrow> unat (nTransactionsUpdated pool) = run_changes cs empty_pool)
     \<and> (\<forall>cs1 cs2. cs = cs1 @ cs2 \<longrightarrow> run_changes cs1 empty_pool \<le> run_changes cs empty_pool)
     \<and> (\<forall>h e f pool'. addUnchecked h e f pool = Some pool'
          \<longrightarrow> nTransactionsUpdated pool' = nTransactionsUpdated pool + 1)
     \<and> (\<forall>tx fRecursive.
          nTransactionsUpdated (snd (remove tx [] fRecursive pool))
            = nTransactionsUpdated pool + of_nat (length (fst (remove tx [] fRecursive pool))))
     \<and> (\<forall>tx fRecursive. GetHash tx \<in> fst ` set (mapTx pool)
          \<longrightarrow> 0 < length (fst (remove tx [] fRecursive pool)))"
proof -
  have "size_ok pool"
    using assms size_ok_empty size_ok_step by (rule run_invariant)
  then have 1: "totalTxSize pool = sum_list (map (\<lambda>it. nTxSize (snd it)) (mapTx pool))"
    by (simp add: size_ok_def size_sum_def)
  from run_changes_count [OF assms]
  have 2: "nTransactionsUpdated pool = of_nat (run_changes cs empty_pool)"
    by (simp add: empty_pool_def)
  have 3: "unat (nTransactionsUpdated pool) = run_changes cs empty_pool"
    if "run_changes cs empty_pool < 2 ^ 32"
    unfolding 2 using that by (simp add: unat_of_nat take_bit_nat_eq_self)
  have 4: "run_changes cs1 empty_pool \<le> run_changes cs empty_pool" if "cs = cs1 @ cs2" for cs1 cs2
    unfolding that by (rule run_changes_prefix)
  have 6: "nTransactionsUpdated (snd (remove tx [] fRecursive pool))
      = nTransactionsUpdated pool + of_nat (length (fst (remove tx [] fRecursive pool)))"
    for tx fRecursive
    using remove_count [of tx "[]" fRecursive pool] by simp
  have 7: "0 < length (fst (remove tx [] fRecursive pool))"
    if "GetHash tx \<in> fst ` set (mapTx pool)" for tx fRecursive
  proof -
    from that obtain e where "mapTx_find pool (GetHash tx) = Some e"
      unfolding mapTx_find_def by (metis map_of_eq_None_iff not_None_eq)
    from remove_pooled_count [OF this, of "[]" fRecursive] show ?thesis by simp
  qed
  from 1 2 3 4 6 7 show ?thesis by (simp add: addUnchecked_count)
qed

theorem counter_coherence_witness:
  "run counter_contract
     [AddUnchecked 1 (entry_of tx_A) True, AddUnchecked 2 (entry_of tx_B) True, Remove tx_B False]
     empty_pool \<noteq> None
   \<and> run_changes
       [AddUnchecked 1 (entry_of tx_A) True, AddUnchecked 2 (entry_of tx_B) True, Remove tx_B False]
       empty_pool = 3
   \<and> map_option (\<lambda>pool. (map fst (mapTx pool), totalTxSize pool, nTransactionsUpdated pool))
       (run counter_contract
          [AddUnchecked 1 (entry_of tx_A) True, AddUnchecked 2 (entry_of tx_B) True,
           Remove tx_B False] empty_pool)
     = Some ([1], 250, 3)"
proof -
  let ?cs = "[AddUnchecked 1 (entry_of tx_A) True, AddUnchecked 2 (entry_of tx_B) True,
      Remove tx_B False]"
  note defs = counter_contract_def addUnchecked_def mapTx_insert_def mapTx_find_def
    mapTx_count_def empty_pool_def entry_of_def tx_A_def tx_B_def Let_def remove_def
    erase_entry_def mapTx_erase_def ClearPrioritisation_def sprout_nullifiers_def
    sapling_nullifiers_def
  obtain pool where r: "run counter_contract ?cs empty_pool = Some pool"
    and k: "mapTx pool = [(1, entry_of tx_A)]"
    by (simp add: defs)
  have c: "run_changes ?cs empty_pool = 3"
    by (simp add: defs)
  from counter_coherence [OF r] k c
  have "totalTxSize pool = 250" and "nTransactionsUpdated pool = 3"
    by (simp_all add: entry_of_def)
  with r k c show ?thesis by simp
qed

subsection \<open>Nullifier indexes\<close>

lemma remove_each_preserves:
  assumes "\<And>h e p. P p \<Longrightarrow> mapTx_find p h = Some e \<Longrightarrow> P (erase_entry h e p)" and "P pool"
  shows "P (remove_each txs pool)"
  using assms(2)
proof (induction txs arbitrary: pool)
  case Nil
  then show ?case by simp
next
  case (Cons tx txs)
  have "P (snd (remove tx [] True pool))"
    using assms(1) Cons.prems by (rule remove_preserves)
  then show ?case using Cons.IH by simp
qed

lemma remove_conflicting_preserves:
  assumes step: "\<And>h e p. P p \<Longrightarrow> mapTx_find p h = Some e \<Longrightarrow> P (erase_entry h e p)"
    and "P pool"
  shows "P (snd (remove_conflicting look tx ks removed pool))"
  using assms(2)
proof (induction ks arbitrary: removed pool)
  case Nil
  then show ?case by simp
next
  case (Cons k ks)
  show ?case
  proof (cases "look pool k")
    case None
    with Cons show ?thesis by simp
  next
    case (Some txConflict)
    show ?thesis
    proof (cases "GetHash txConflict \<noteq> GetHash tx")
      case True
      obtain r' p' where r: "remove txConflict removed True pool = (r', p')"
        by (cases "remove txConflict removed True pool")
      have "P (snd (remove txConflict removed True pool))"
        using step Cons.prems by (rule remove_preserves)
      with r have "P p'" by simp
      from Cons.IH [OF this] Some True r show ?thesis by simp
    next
      case False
      with Cons Some show ?thesis by simp
    qed
  qed
qed

lemma removeConflicts_preserves:
  assumes step: "\<And>h e p. P p \<Longrightarrow> mapTx_find p h = Some e \<Longrightarrow> P (erase_entry h e p)"
    and "P pool"
  shows "P (snd (removeConflicts tx removed pool))"
proof -
  obtain r1 p1 where 1: "remove_conflicting spender_of tx (vin tx) removed pool = (r1, p1)"
    by (cases "remove_conflicting spender_of tx (vin tx) removed pool")
  obtain r2 p2 where 2: "remove_conflicting mapSproutNullifiers tx (sprout_nullifiers tx) r1 p1
      = (r2, p2)"
    by (cases "remove_conflicting mapSproutNullifiers tx (sprout_nullifiers tx) r1 p1")
  from remove_conflicting_preserves [of P pool spender_of tx "vin tx" removed, OF step assms(2)] 1
  have "P p1" by simp
  from remove_conflicting_preserves [of P p1 mapSproutNullifiers tx "sprout_nullifiers tx" r1,
      OF step this] 2
  have "P p2" by simp
  from remove_conflicting_preserves [of P p2 mapSaplingNullifiers tx "sapling_nullifiers tx" r2,
      OF step this] 1 2
  show ?thesis by (simp add: removeConflicts_def)
qed

lemma removeForBlock_loop_preserves:
  assumes step: "\<And>h e p. P p \<Longrightarrow> mapTx_find p h = Some e \<Longrightarrow> P (erase_entry h e p)"
    and prio: "\<And>h p. P p \<Longrightarrow> P (ClearPrioritisation h p)"
    and "P pool"
  shows "P (snd (removeForBlock_loop vtx conflicts pool))"
  using assms(3)
proof (induction vtx arbitrary: conflicts pool)
  case Nil
  then show ?case by simp
next
  case (Cons tx vtx)
  obtain d p1 where 1: "remove tx [] False pool = (d, p1)"
    by (cases "remove tx [] False pool")
  obtain c' p2 where 2: "removeConflicts tx conflicts p1 = (c', p2)"
    by (cases "removeConflicts tx conflicts p1")
  have "P (snd (remove tx [] False pool))" using step Cons.prems by (rule remove_preserves)
  with 1 have "P p1" by simp
  with removeConflicts_preserves [of P p1 tx conflicts, OF step] 2 have "P p2" by simp
  then have "P (ClearPrioritisation (GetHash tx) p2)" by (rule prio)
  from Cons.IH [OF this] 1 2 show ?case by simp
qed

lemma removal_call_preserves:
  assumes step: "\<And>h e p. P p \<Longrightarrow> mapTx_find p h = Some e \<Longrightarrow> P (erase_entry h e p)"
    and prio: "\<And>h p. P p \<Longrightarrow> P (ClearPrioritisation h p)"
    and est: "\<And>x p. P p \<Longrightarrow> P (p\<lparr> minerPolicyEstimator := x \<rparr>)"
    and "P p" and "apply_call c p = Some p'"
    and "\<And>h e f. c \<noteq> AddUnchecked h e f" and "c \<noteq> Clear"
  shows "P p'"
proof (cases c)
  case (AddUnchecked h e f)
  with assms(6) show ?thesis by blast
next
  case (Remove origTx fRecursive)
  have "P (snd (remove origTx [] fRecursive p))" using step assms(4) by (rule remove_preserves)
  with Remove assms(5) show ?thesis by auto
next
  case (RemoveConflicts tx)
  have "P (snd (removeConflicts tx [] p))" using step assms(4) by (rule removeConflicts_preserves)
  with RemoveConflicts assms(5) show ?thesis by auto
next
  case (RemoveWithAnchor r ty)
  with assms(5) obtain ts where "p' = remove_each ts p"
    by (auto simp: removeWithAnchor_def split: sum.splits)
  with remove_each_preserves [of P p ts, OF step assms(4)] show ?thesis by simp
next
  case (RemoveWithoutBranchId b)
  with assms(5) have "p' = removeWithoutBranchId b p" by simp
  with remove_each_preserves [of P p, OF step assms(4)] show ?thesis
    by (simp add: removeWithoutBranchId_def)
next
  case (RemoveExpired x y z)
  with assms(5) have "p' = removeExpired x y z p" by simp
  with remove_each_preserves [of P p, OF step assms(4)] show ?thesis
    by (simp add: removeExpired_def)
next
  case (RemoveForReorg x y z)
  with assms(5) obtain ts where "p' = remove_each ts p"
    by (auto simp: removeForReorg_def split: option.splits)
  with remove_each_preserves [of P p ts, OF step assms(4)] show ?thesis by simp
next
  case (RemoveForBlock vtx hgt f)
  obtain c' p2 where l: "removeForBlock_loop vtx [] p = (c', p2)"
    by (cases "removeForBlock_loop vtx [] p")
  from removeForBlock_loop_preserves [of P p vtx "[]", OF step prio assms(4)] l
  have "P p2" by simp
  then have "P (p2\<lparr> minerPolicyEstimator := minerPolicyEstimator p2 @ [ProcessBlock hgt
      (concat (map (\<lambda>tx. case mapTx_find p (GetHash tx) of None \<Rightarrow> [] | Some e \<Rightarrow> [e]) vtx)) f] \<rparr>)"
    by (rule est)
  with RemoveForBlock assms(5) l show ?thesis by (auto simp: removeForBlock_def Let_def)
next
  case Clear
  with assms(7) show ?thesis by blast
qed

lemma nf_index_ok_erase:
  assumes k: "keys_ok p" and ok: "nf_index_ok idx nfs p" and f: "mapTx_find p h = Some e"
    and idx: "idx (erase_entry h e p) = erase_all (nfs (GetTx e)) (idx p)"
  shows "nf_index_ok idx nfs (erase_entry h e p)"
proof -
  note txs = pool_txs_erase [OF k f]
  from ok have c: "\<And>tx nf. tx \<in> set (pool_txs p) \<Longrightarrow> nf \<in> set (nfs tx) \<Longrightarrow> idx p nf = Some tx"
    and d: "\<And>tx. tx \<in> set (pool_txs p) \<Longrightarrow> distinct (nfs tx)"
    and s: "\<And>nf tx. idx p nf = Some tx \<Longrightarrow> tx \<in> set (pool_txs p) \<and> nf \<in> set (nfs tx)"
    unfolding nf_index_ok_def by blast+
  from k f have e_in: "GetTx e \<in> set (pool_txs p)"
    by (force simp: mapTx_find_mem pool_txs_def)
  show ?thesis
    unfolding nf_index_ok_def
  proof (intro conjI ballI allI impI)
    fix tx assume "tx \<in> set (pool_txs (erase_entry h e p))"
    with txs d show "distinct (nfs tx)" by simp
  next
    fix tx nf
    assume tx: "tx \<in> set (pool_txs (erase_entry h e p))" and nf: "nf \<in> set (nfs tx)"
    from tx txs have tin: "tx \<in> set (pool_txs p)" and ne: "tx \<noteq> GetTx e" by auto
    from c [OF tin nf] have i: "idx p nf = Some tx" .
    have "nf \<notin> set (nfs (GetTx e))"
    proof
      assume "nf \<in> set (nfs (GetTx e))"
      from c [OF e_in this] i ne show False by simp
    qed
    with i show "idx (erase_entry h e p) nf = Some tx" by (simp add: idx erase_all_apply)
  next
    fix nf tx
    assume a: "idx (erase_entry h e p) nf = Some tx"
    then have notin: "nf \<notin> set (nfs (GetTx e))" and old: "idx p nf = Some tx"
      by (auto simp: idx erase_all_apply split: if_splits)
    from s [OF old] have o: "tx \<in> set (pool_txs p)" "nf \<in> set (nfs tx)" by simp_all
    with notin have "tx \<noteq> GetTx e" by blast
    with o txs show "tx \<in> set (pool_txs (erase_entry h e p))" by simp
    from o show "nf \<in> set (nfs tx)" by simp
  qed
qed

lemma nf_index_ok_add:
  assumes ok: "nf_index_ok idx nfs p"
    and dist: "distinct (nfs tx)"
    and disj: "\<forall>t \<in> set (pool_txs p). set (nfs t) \<inter> set (nfs tx) = {}"
    and txs: "set (pool_txs p') = insert tx (set (pool_txs p))"
    and idx: "idx p' = assign_all (map (\<lambda>nf. (nf, tx)) (nfs tx)) (idx p)"
  shows "nf_index_ok idx nfs p'"
proof -
  from ok have c: "\<And>t nf. t \<in> set (pool_txs p) \<Longrightarrow> nf \<in> set (nfs t) \<Longrightarrow> idx p nf = Some t"
    and d: "\<And>t. t \<in> set (pool_txs p) \<Longrightarrow> distinct (nfs t)"
    and s: "\<And>nf t. idx p nf = Some t \<Longrightarrow> t \<in> set (pool_txs p) \<and> nf \<in> set (nfs t)"
    unfolding nf_index_ok_def by blast+
  let ?kvs = "map (\<lambda>nf. (nf, tx)) (nfs tx)"
  have keys: "fst ` set ?kvs = set (nfs tx)" by (simp add: image_image)
  have dk: "distinct (map fst ?kvs)" using dist by (simp add: comp_def)
  show ?thesis
    unfolding nf_index_ok_def
  proof (intro conjI ballI allI impI)
    fix t assume "t \<in> set (pool_txs p')"
    with txs d dist show "distinct (nfs t)" by auto
  next
    fix t nf
    assume t: "t \<in> set (pool_txs p')" and nf: "nf \<in> set (nfs t)"
    show "idx p' nf = Some t"
    proof (cases "nf \<in> set (nfs tx)")
      case True
      then have "(nf, tx) \<in> set ?kvs" by simp
      from assign_all_distinct [OF dk this] have i: "idx p' nf = Some tx" by (simp add: idx)
      have "t = tx"
      proof (rule ccontr)
        assume "t \<noteq> tx"
        with t txs have "t \<in> set (pool_txs p)" by simp
        with disj nf True show False by blast
      qed
      with i show ?thesis by simp
    next
      case False
      with nf have "t \<noteq> tx" by blast
      with t txs have "t \<in> set (pool_txs p)" by simp
      from c [OF this nf] have "idx p nf = Some t" .
      moreover from False keys have "nf \<notin> fst ` set ?kvs" by simp
      ultimately show ?thesis by (simp add: idx assign_all_notin)
    qed
  next
    fix nf t
    assume a: "idx p' nf = Some t"
    then have "assign_all ?kvs (idx p) nf = Some t" by (simp add: idx)
    from assign_all_cases [OF this]
    have cs: "(nf, t) \<in> set ?kvs \<or> idx p nf = Some t" by blast
    then show "t \<in> set (pool_txs p')"
    proof
      assume "(nf, t) \<in> set ?kvs"
      then have "t = tx" by auto
      with txs show ?thesis by simp
    next
      assume "idx p nf = Some t"
      from s [OF this] txs show ?thesis by simp
    qed
    from cs show "nf \<in> set (nfs t)"
    proof
      assume "(nf, t) \<in> set ?kvs"
      then show ?thesis by auto
    next
      assume "idx p nf = Some t"
      from s [OF this] show ?thesis by simp
    qed
  qed
qed

lemma nullifier_wf_erase:
  assumes "nullifier_wf p" and f: "mapTx_find p h = Some e"
  shows "nullifier_wf (erase_entry h e p)"
proof -
  from assms(1) have k: "keys_ok p"
    and a: "nf_index_ok mapSproutNullifiers sprout_nullifiers p"
    and b: "nf_index_ok mapSaplingNullifiers sapling_nullifiers p"
    by (simp_all add: nullifier_wf_def)
  have "nf_index_ok mapSproutNullifiers sprout_nullifiers (erase_entry h e p)"
    using k a f by (rule nf_index_ok_erase) simp
  moreover have "nf_index_ok mapSaplingNullifiers sapling_nullifiers (erase_entry h e p)"
    using k b f by (rule nf_index_ok_erase) simp
  ultimately show ?thesis using keys_ok_erase [OF k] by (simp add: nullifier_wf_def)
qed

lemma nullifier_wf_cong:
  assumes "mapTx p' = mapTx p" and "mapSproutNullifiers p' = mapSproutNullifiers p"
    and "mapSaplingNullifiers p' = mapSaplingNullifiers p"
  shows "nullifier_wf p' = nullifier_wf p"
  using assms by (simp add: nullifier_wf_def nf_index_ok_def keys_ok_def pool_txs_def)

lemma nullifier_wf_prio: "nullifier_wf p \<Longrightarrow> nullifier_wf (ClearPrioritisation h p)"
  by (subst nullifier_wf_cong [of _ p]) (simp_all add: ClearPrioritisation_def)

lemma nullifier_wf_est: "nullifier_wf p \<Longrightarrow> nullifier_wf (p\<lparr> minerPolicyEstimator := x \<rparr>)"
  by (subst nullifier_wf_cong [of _ p]) simp_all

lemma nullifier_wf_add:
  assumes wf: "nullifier_wf p" and fresh: "h \<notin> fst ` set (mapTx p)"
    and d1: "distinct (sprout_nullifiers (GetTx e))"
    and d2: "distinct (sapling_nullifiers (GetTx e))"
    and dj1: "\<forall>t \<in> set (pool_txs p). set (sprout_nullifiers t) \<inter> set (sprout_nullifiers (GetTx e)) = {}"
    and dj2: "\<forall>t \<in> set (pool_txs p). set (sapling_nullifiers t) \<inter> set (sapling_nullifiers (GetTx e)) = {}"
    and add: "addUnchecked h e f p = Some p'"
  shows "nullifier_wf p'"
proof -
  from wf have k: "keys_ok p"
    and a: "nf_index_ok mapSproutNullifiers sprout_nullifiers p"
    and b: "nf_index_ok mapSaplingNullifiers sapling_nullifiers p"
    by (simp_all add: nullifier_wf_def)
  from addUnchecked_hash [OF add fresh] have h: "h = GetHash (GetTx e)" .
  from addUnchecked_fresh [OF h fresh, of f] add
  have m: "mapTx p' = insort_key fst (h, e) (mapTx p)"
    and i1: "mapSproutNullifiers p' = assign_all (map (\<lambda>nf. (nf, GetTx e))
        (sprout_nullifiers (GetTx e))) (mapSproutNullifiers p)"
    and i2: "mapSaplingNullifiers p' = assign_all (map (\<lambda>nf. (nf, GetTx e))
        (sapling_nullifiers (GetTx e))) (mapSaplingNullifiers p)"
    by simp_all
  note k' = keys_ok_insort [OF k h fresh m]
  from nf_index_ok_add [OF a d1 dj1 k'(2) i1] nf_index_ok_add [OF b d2 dj2 k'(2) i2] k'(1)
  show ?thesis by (simp add: nullifier_wf_def)
qed

lemma nullifier_wf_empty: "nullifier_wf empty_pool"
  by (simp add: nullifier_wf_def nf_index_ok_def keys_ok_def pool_txs_def empty_pool_def)

lemma nullifier_wf_step:
  assumes "nullifier_wf p" and "nullifier_contract p c" and "apply_call c p = Some p'"
  shows "nullifier_wf p'"
proof (cases "\<exists>h e f. c = AddUnchecked h e f")
  case True
  then obtain h e f where c: "c = AddUnchecked h e f" by blast
  from assms(3) c have add: "addUnchecked h e f p = Some p'" by simp
  from assms(2) c show ?thesis
    by (intro nullifier_wf_add [OF assms(1) _ _ _ _ _ add])
       (simp_all add: nullifier_contract_def)
next
  case False
  moreover from assms(2) have "c \<noteq> Clear" by (auto simp: nullifier_contract_def)
  ultimately show ?thesis
    using nullifier_wf_erase nullifier_wf_prio nullifier_wf_est assms(1,3)
    by (intro removal_call_preserves [of nullifier_wf p c p']) blast+
qed

lemma nf_index_ok_dom:
  assumes "nf_index_ok idx nfs pool"
  shows "nf \<in> dom (idx pool) \<longleftrightarrow> (\<exists>tx \<in> set (pool_txs pool). nf \<in> set (nfs tx))"
  using assms unfolding nf_index_ok_def by (metis domI domIff not_None_eq)

lemma nf_index_ok_disjoint:
  assumes "nf_index_ok idx nfs pool" and "t1 \<in> set (pool_txs pool)" and "t2 \<in> set (pool_txs pool)"
    and "t1 \<noteq> t2"
  shows "set (nfs t1) \<inter> set (nfs t2) = {}"
proof (rule ccontr)
  assume "set (nfs t1) \<inter> set (nfs t2) \<noteq> {}"
  then obtain nf where "nf \<in> set (nfs t1)" "nf \<in> set (nfs t2)" by blast
  with assms(1-3) have "idx pool nf = Some t1" "idx pool nf = Some t2"
    unfolding nf_index_ok_def by blast+
  with assms(4) show False by simp
qed

text \<open>
  C5, as the claim states it, fails in two ways. \<open>clear\<close> empties \<open>mapTx\<close> and the Spend
  Index and leaves both nullifier indexes as they are: after \<open>tx_A\<close> is added and the
  pool is cleared, nullifier 7 is still a key of the Sprout index and no pooled
  transaction spends it. And \<open>addUnchecked\<close> validates nothing: after \<open>tx_A\<close> and \<open>tx_N\<close>
  are added, both are pooled and both spend nullifier 7.
\<close>

theorem nullifier_index_after_clear_or_double_spend:
  "map_option (\<lambda>pool. (mapTx pool, mapSproutNullifiers pool 7))
     (run claimed_nullifier_contract [AddUnchecked 1 (entry_of tx_A) True, Clear] empty_pool)
   = Some ([], Some tx_A)
   \<and> map_option (\<lambda>pool. (pool_txs pool, mapSproutNullifiers pool 7))
       (run claimed_nullifier_contract
          [AddUnchecked 1 (entry_of tx_A) True, AddUnchecked 5 (entry_of tx_N) True] empty_pool)
     = Some ([tx_A, tx_N], Some tx_N)
   \<and> sprout_nullifiers tx_A = [7] \<and> sprout_nullifiers tx_N = [7]"
  by (simp add: claimed_nullifier_contract_def addUnchecked_def mapTx_insert_def mapTx_find_def
      pool_txs_def empty_pool_def entry_of_def tx_A_def tx_N_def Let_def clear_def
      sprout_nullifiers_def sapling_nullifiers_def)

text \<open>
  C5, amended. In every pool reached from the empty pool by \<open>addUnchecked\<close>, \<open>remove\<close>,
  \<open>removeConflicts\<close>, \<open>removeWithAnchor\<close>, \<open>removeWithoutBranchId\<close>, \<open>removeExpired\<close>,
  \<open>removeForReorg\<close> and \<open>removeForBlock\<close>, where \<open>addUnchecked\<close> is never called with a
  hash that is already pooled nor with a transaction that repeats a nullifier or spends
  a nullifier that a pooled transaction spends: a nullifier is a key of the Sprout
  (Sapling) index if and only if a pooled transaction spends it as a Sprout (Sapling)
  nullifier; every nullifier of a pooled transaction is mapped to that transaction; and
  no nullifier is spent twice, neither by one pooled transaction nor by two.
\<close>

theorem nullifier_lockstep:
  assumes "run nullifier_contract cs empty_pool = Some pool"
  shows "(\<forall>nf. nf \<in> dom (mapSproutNullifiers pool)
            \<longleftrightarrow> (\<exists>tx \<in> set (pool_txs pool). nf \<in> set (sprout_nullifiers tx)))
     \<and> (\<forall>nf. nf \<in> dom (mapSaplingNullifiers pool)
            \<longleftrightarrow> (\<exists>tx \<in> set (pool_txs pool). nf \<in> set (sapling_nullifiers tx)))
     \<and> (\<forall>tx \<in> set (pool_txs pool).
           (\<forall>nf \<in> set (sprout_nullifiers tx). mapSproutNullifiers pool nf = Some tx)
           \<and> (\<forall>nf \<in> set (sapling_nullifiers tx). mapSaplingNullifiers pool nf = Some tx))
     \<and> (\<forall>tx \<in> set (pool_txs pool).
           distinct (sprout_nullifiers tx) \<and> distinct (sapling_nullifiers tx))
     \<and> (\<forall>t1 \<in> set (pool_txs pool). \<forall>t2 \<in> set (pool_txs pool). t1 \<noteq> t2 \<longrightarrow>
           set (sprout_nullifiers t1) \<inter> set (sprout_nullifiers t2) = {}
           \<and> set (sapling_nullifiers t1) \<inter> set (sapling_nullifiers t2) = {})"
proof -
  have "nullifier_wf pool"
    using assms nullifier_wf_empty nullifier_wf_step by (rule run_invariant)
  then have a: "nf_index_ok mapSproutNullifiers sprout_nullifiers pool"
    and b: "nf_index_ok mapSaplingNullifiers sapling_nullifiers pool"
    by (simp_all add: nullifier_wf_def)
  note dom = nf_index_ok_dom [OF a] nf_index_ok_dom [OF b]
  note dj = nf_index_ok_disjoint [OF a] nf_index_ok_disjoint [OF b]
  from a b have own: "\<forall>tx \<in> set (pool_txs pool).
           (\<forall>nf \<in> set (sprout_nullifiers tx). mapSproutNullifiers pool nf = Some tx)
           \<and> (\<forall>nf \<in> set (sapling_nullifiers tx). mapSaplingNullifiers pool nf = Some tx)"
    and dist: "\<forall>tx \<in> set (pool_txs pool).
           distinct (sprout_nullifiers tx) \<and> distinct (sapling_nullifiers tx)"
    unfolding nf_index_ok_def by blast+
  from dom dj own dist show ?thesis by blast
qed

theorem nullifier_lockstep_witness:
  "map_option (\<lambda>pool. (pool_txs pool, mapSproutNullifiers pool 7))
     (run nullifier_contract
        [AddUnchecked 1 (entry_of tx_A) True, AddUnchecked 2 (entry_of tx_B) True] empty_pool)
   = Some ([tx_A, tx_B], Some tx_A)
   \<and> map_option (\<lambda>pool. (pool_txs pool, mapSproutNullifiers pool 7))
       (run nullifier_contract
          [AddUnchecked 1 (entry_of tx_A) True, AddUnchecked 2 (entry_of tx_B) True,
           RemoveWithAnchor 9 SPROUT] empty_pool)
     = Some ([], None)"
proof -
  note defs = nullifier_contract_def addUnchecked_def mapTx_insert_def mapTx_find_def
    mapTx_count_def empty_pool_def entry_of_def tx_A_def tx_B_def Let_def remove_def
    erase_entry_def mapTx_erase_def ClearPrioritisation_def sprout_nullifiers_def
    sapling_nullifiers_def pool_txs_def removeWithAnchor_def push_spenders_def
  let ?cs1 = "[AddUnchecked 1 (entry_of tx_A) True, AddUnchecked 2 (entry_of tx_B) True]"
  let ?cs2 = "[AddUnchecked 1 (entry_of tx_A) True, AddUnchecked 2 (entry_of tx_B) True,
           RemoveWithAnchor 9 SPROUT]"
  obtain p1 where r1: "run nullifier_contract ?cs1 empty_pool = Some p1"
    and t1: "pool_txs p1 = [tx_A, tx_B]"
    by (simp add: defs)
  obtain p2 where r2: "run nullifier_contract ?cs2 empty_pool = Some p2"
    and t2: "pool_txs p2 = []"
    by (simp add: defs)
  have n: "sprout_nullifiers tx_A = [7]" by (simp add: sprout_nullifiers_def tx_A_def)
  from nullifier_lockstep [OF r1] t1 n have "mapSproutNullifiers p1 7 = Some tx_A"
    by simp
  moreover from nullifier_lockstep [OF r2] t2 have "7 \<notin> dom (mapSproutNullifiers p2)"
    by simp
  then have "mapSproutNullifiers p2 7 = None" by blast
  ultimately show ?thesis using r1 r2 t1 t2 by simp
qed

subsection \<open>Prioritisation\<close>

text \<open>
  C8. Prioritisation accumulation: \<open>PrioritiseTransaction\<close> adds both deltas to the
  entry stored for the hash, starting from \<open>(0, 0)\<close> when there is none, touches no other
  entry of the table and no other component of the pool (so membership is unchanged); \<open>ApplyDeltas\<close> adds the stored
  deltas to its arguments and returns them unchanged when there is no entry; calling
  \<open>PrioritiseTransaction h 5 1000\<close> twice and then \<open>ApplyDeltas h\<close> on \<open>(0, 0)\<close> gives
  \<open>(10, 2000)\<close>.
\<close>

theorem prioritise_accumulates:
  "mapDeltas (PrioritiseTransaction h s d f pool) h =
     Some (fst (case mapDeltas pool h of None \<Rightarrow> (0, 0) | Some x \<Rightarrow> x) + d,
           snd (case mapDeltas pool h of None \<Rightarrow> (0, 0) | Some x \<Rightarrow> x) + f)
   \<and> PrioritiseTransaction h s d f pool
       = pool\<lparr> mapDeltas := mapDeltas (PrioritiseTransaction h s d f pool) \<rparr>
   \<and> (mapDeltas (PrioritiseTransaction h s d f pool))(h := None) = (mapDeltas pool)(h := None)
   \<and> mapTx (PrioritiseTransaction h s d f pool) = mapTx pool
   \<and> ApplyDeltas pool h (dp, df)
       = (case mapDeltas pool h of None \<Rightarrow> (dp, df) | Some x \<Rightarrow> (dp + fst x, df + snd x))
   \<and> ApplyDeltas (PrioritiseTransaction h s 5 1000 (PrioritiseTransaction h s 5 1000
         (pool\<lparr> mapDeltas := (mapDeltas pool)(h := None) \<rparr>))) h (0, 0) = (10, 2000)"
  by (simp add: PrioritiseTransaction_def ApplyDeltas_def Let_def split: option.split)

subsection \<open>Unknown shielded types\<close>

lemma anchor_scan_sprout: "\<exists>ts. anchor_scan r SPROUT l acc = Inr ts"
  by (induction l arbitrary: acc) (simp_all add: Let_def)

lemma anchor_scan_sapling: "\<exists>ts. anchor_scan r SAPLING l acc = Inr ts"
  by (induction l arbitrary: acc) (simp_all add: Let_def)

lemma anchor_scan_other:
  "anchor_scan r (OtherShieldedType k) l acc =
     (if l = [] then Inr acc else Inl (runtime_error ''Unknown shielded type''))"
  by (cases l) (simp_all add: Let_def)

text \<open>
  C10, as the claim states it, fails: with an empty pool \<open>removeWithAnchor\<close> returns
  normally for a shielded type that is neither \<open>SPROUT\<close> nor \<open>SAPLING\<close>, and the pool
  is unchanged.
\<close>

theorem removeWithAnchor_unknown_type_empty_pool:
  "removeWithAnchor 7 (OtherShieldedType 2) empty_pool = Inr empty_pool"
  by (simp add: removeWithAnchor_def empty_pool_def)

text \<open>
  C10, amended. For every shielded type that is neither \<open>SPROUT\<close> nor \<open>SAPLING\<close>,
  \<open>nullifierExists\<close> throws "Unknown nullifier type", and \<open>removeWithAnchor\<close> throws
  "Unknown shielded type" exactly when the pool holds at least one transaction; with an
  empty pool it returns and leaves the pool unchanged. For \<open>SPROUT\<close> and \<open>SAPLING\<close>
  both functions return without throwing.
\<close>

theorem unknown_shielded_type:
  "nullifierExists pool nf (OtherShieldedType k) = Inl (runtime_error ''Unknown nullifier type'')
   \<and> removeWithAnchor r (OtherShieldedType k) pool
       = (if mapTx pool = [] then Inr pool else Inl (runtime_error ''Unknown shielded type''))
   \<and> (\<exists>b. nullifierExists pool nf SPROUT = Inr b)
   \<and> (\<exists>b. nullifierExists pool nf SAPLING = Inr b)
   \<and> (\<exists>pool'. removeWithAnchor r SPROUT pool = Inr pool')
   \<and> (\<exists>pool'. removeWithAnchor r SAPLING pool = Inr pool')"
proof -
  obtain ts1 where s1: "anchor_scan r SPROUT (mapTx pool) [] = Inr ts1"
    using anchor_scan_sprout by blast
  obtain ts2 where s2: "anchor_scan r SAPLING (mapTx pool) [] = Inr ts2"
    using anchor_scan_sapling by blast
  show ?thesis
    by (simp add: nullifierExists_def removeWithAnchor_def anchor_scan_other s1 s2)
qed

subsection \<open>Coins-view overlay\<close>

text \<open>
  C7. Coins-view overlay: when \<open>txid\<close> is in the pool, \<open>GetCoins\<close> returns true with the
  coins of the pooled transaction, whatever the backing view holds; otherwise it
  returns true exactly when the backing view has the coins and they are not pruned.
  For the two shielded types, \<open>GetNullifier\<close> returns true exactly when the nullifier is
  a key of the pool's index of that type or the backing view reports it spent.
  \<open>HaveCoins\<close> returns true exactly when \<open>txid\<close> is in the pool or the backing view has
  coins for it.
\<close>

theorem coins_view_overlay:
  "GetCoins view pool txid coins =
     (case map_of (mapTx pool) txid of
        Some e \<Rightarrow> (True, CCoins_of_tx view (GetTx e))
      | None \<Rightarrow> (fst (base_GetCoins view txid coins)
                    \<and> \<not> IsPruned view (snd (base_GetCoins view txid coins)),
                 snd (base_GetCoins view txid coins)))
   \<and> GetNullifier view pool nf SPROUT
       = Inr (nf \<in> dom (mapSproutNullifiers pool) \<or> base_GetNullifier view nf SPROUT)
   \<and> GetNullifier view pool nf SAPLING
       = Inr (nf \<in> dom (mapSaplingNullifiers pool) \<or> base_GetNullifier view nf SAPLING)
   \<and> HaveCoins view pool txid = (txid \<in> fst ` set (mapTx pool) \<or> base_HaveCoins view txid)"
proof -
  have "map_of (mapTx pool) txid \<noteq> None \<longleftrightarrow> txid \<in> fst ` set (mapTx pool)"
    by (simp add: map_of_eq_None_iff)
  then show ?thesis
    by (auto simp: GetCoins_def lookup_def mapTx_find_def GetNullifier_def nullifierExists_def
        HaveCoins_def exists_tx_def mapTx_count_def split: option.splits prod.splits)
qed

subsection \<open>Priority\<close>

text \<open>
  C6, as the claim states it, fails for a height below the insertion height: the
  difference of the two heights is an unsigned 32-bit difference and wraps around. An
  entry inserted at height 1, without reserve, with output value 1, fee 0 and modified
  size 1, has priority 4294967295 at height 0, where the claim's formula gives -1.
\<close>

definition entry_at_height_1 :: CTxMemPoolEntry where
  "entry_at_height_1 =
     \<lparr> GetTx = \<lparr> GetHash = 1, vin = [], vout = [1], vJoinSplit = [], vShieldedSpend = [],
                 IsCoinImport = False, GetValueOut = 1, GetReserveValueOut = 0 \<rparr>,
       nFee = 0, nTxSize = 1, nModSize = 1, nUsageSize = 1, nTime = 0, dPriority = 0,
       nHeight = 1, hadNoDependencies = True, spendsCoinbase = False, hasReserve = False,
       nBranchId = 0 \<rparr>"

definition no_currency_state :: "32 word \<Rightarrow> CCurrencyState" where
  "no_currency_state h = \<lparr> IsValid = False, ReserveToNative = (\<lambda>x. x) \<rparr>"

theorem GetPriority_below_insertion_height:
  "GetPriority no_currency_state entry_at_height_1 0 = 4294967295
   \<and> spec_priority no_currency_state entry_at_height_1 0 = -1"
proof -
  have "unat (- 1 :: 32 word) = 4294967295"
    by (simp add: unsigned_minus_1_eq_mask mask_eq_exp_minus_1)
  then show ?thesis
    by (simp add: GetPriority_def spec_priority_def spec_valueIn_def entry_at_height_1_def Let_def)
qed

text \<open>
  C6, amended. For an entry with a non-zero modified size and every current height that
  is not below the insertion height (and not 0 when the reserve flag is set),
  \<open>GetPriority\<close> returns the seed priority plus
  (currentHeight - insertionHeight) * valueIn / modifiedSize, where valueIn is the
  output value plus the fee plus, exactly when the reserve flag is set and the provider
  keyed at currentHeight - 1 reports a valid state, the converted reserve output value.
  The function only returns a number: it changes neither the entry nor the pool.
\<close>

theorem GetPriority_formula:
  assumes "nModSize e \<noteq> 0" and "nHeight e \<le> currentHeight"
    and "hasReserve e \<longrightarrow> currentHeight \<noteq> 0"
  shows "GetPriority gcs e currentHeight = spec_priority gcs e currentHeight"
proof -
  have "unat (currentHeight - nHeight e) = unat currentHeight - unat (nHeight e)"
    using assms(2) by (simp add: unat_sub)
  moreover have "unat (nHeight e) \<le> unat currentHeight"
    using assms(2) by (simp add: word_le_nat_alt)
  ultimately have d: "real (unat (currentHeight - nHeight e))
      = real_of_int (uint currentHeight - uint (nHeight e))"
    by (simp add: of_nat_diff)
  have m: "real (unat (nModSize e)) = real_of_int (uint (nModSize e))"
    by simp
  show ?thesis
    unfolding GetPriority_def spec_priority_def spec_valueIn_def Let_def d m
    by simp
qed

definition doubling_currency_state :: "32 word \<Rightarrow> CCurrencyState" where
  "doubling_currency_state h = \<lparr> IsValid = (h = 4), ReserveToNative = (\<lambda>x. 2 * x) \<rparr>"

definition reserve_entry :: CTxMemPoolEntry where
  "reserve_entry =
     \<lparr> GetTx = \<lparr> GetHash = 2, vin = [], vout = [1], vJoinSplit = [], vShieldedSpend = [],
                 IsCoinImport = False, GetValueOut = 1, GetReserveValueOut = 3 \<rparr>,
       nFee = 1, nTxSize = 2, nModSize = 2, nUsageSize = 2, nTime = 0, dPriority = 10,
       nHeight = 1, hadNoDependencies = True, spendsCoinbase = False, hasReserve = True,
       nBranchId = 0 \<rparr>"

theorem GetPriority_formula_witness:
  "nModSize reserve_entry \<noteq> 0 \<and> nHeight reserve_entry \<le> 5 \<and> hasReserve reserve_entry
   \<and> (5 :: 32 word) \<noteq> 0
   \<and> GetPriority doubling_currency_state reserve_entry 5 = 26
   \<and> GetPriority doubling_currency_state reserve_entry 6 = 15"
proof -
  have a: "nModSize reserve_entry \<noteq> 0" by (simp add: reserve_entry_def)
  have b: "nHeight reserve_entry \<le> 5" "nHeight reserve_entry \<le> 6"
    by (simp_all add: reserve_entry_def)
  have c: "hasReserve reserve_entry \<longrightarrow> (5 :: 32 word) \<noteq> 0"
    "hasReserve reserve_entry \<longrightarrow> (6 :: 32 word) \<noteq> 0"
    by simp_all
  have s: "spec_priority doubling_currency_state reserve_entry 5 = 26"
    "spec_priority doubling_currency_state reserve_entry 6 = 15"
    by (simp_all add: spec_priority_def spec_valueIn_def reserve_entry_def
        doubling_currency_state_def)
  have h: "hasReserve reserve_entry" by (simp add: reserve_entry_def)
  from GetPriority_formula [OF a b(1) c(1), of doubling_currency_state]
       GetPriority_formula [OF a b(2) c(2), of doubling_currency_state] a b h s
  show ?thesis by simp
qed

subsection \<open>Fee-estimate file\<close>

text \<open>
  C9. \<open>WriteFeeEstimates\<close> on an open file appends 109900 (the version required to
  read) and then \<open>CLIENT_VERSION\<close> before the estimator writes its state, and returns
  true exactly when the estimator's write does not throw; on a null file it returns
  false. \<open>ReadFeeEstimates\<close> changes at most the estimator component of the pool; it
  returns false whenever reading either version number throws, whenever the required
  version exceeds \<open>CLIENT_VERSION\<close> (then the estimator is untouched as well), and
  whenever the estimator's read throws. Both return a boolean in every case: an
  exception is a value inside the functions and never their result.
\<close>

theorem fee_estimates_io:
  "WriteFeeEstimates cv est_Write pool (File xs)
     = (snd (est_Write (minerPolicyEstimator pool) (File (xs @ [109900, cv]))) = None,
        fst (est_Write (minerPolicyEstimator pool) (File (xs @ [109900, cv]))))
   \<and> WriteFeeEstimates cv est_Write pool NullFile = (False, NullFile)
   \<and> fst (snd (ReadFeeEstimates cv est_Read pool filein))
       = pool\<lparr> minerPolicyEstimator :=
                 minerPolicyEstimator (fst (snd (ReadFeeEstimates cv est_Read pool filein))) \<rparr>
   \<and> (\<forall>ex. read_int filein = Inl ex
        \<longrightarrow> ReadFeeEstimates cv est_Read pool filein = (False, pool, filein))
   \<and> (\<forall>req f1 ex. read_int filein = Inr (req, f1) \<and> read_int f1 = Inl ex
        \<longrightarrow> ReadFeeEstimates cv est_Read pool filein = (False, pool, f1))
   \<and> (\<forall>req wrote f2. filein = File (req # wrote # f2) \<and> req > cv
        \<longrightarrow> ReadFeeEstimates cv est_Read pool filein = (False, pool, File f2))
   \<and> (\<forall>req wrote f2 ex. filein = File (req # wrote # f2) \<and> req \<le> cv
          \<and> snd (est_Read (File f2) (minerPolicyEstimator pool)) = Some ex
        \<longrightarrow> fst (ReadFeeEstimates cv est_Read pool filein) = False)"
  by (auto simp: WriteFeeEstimates_def ReadFeeEstimates_def write_int_def read_int_def
      split: sum.splits prod.splits option.splits CAutoFile.splits list.splits)

definition failing_est_Read ::
  "CAutoFile \<Rightarrow> estimator_call list \<Rightarrow> (estimator_call list \<times> CAutoFile) \<times> exn option" where
  "failing_est_Read f est = ((est, f), Some (runtime_error ''Corrupt estimates file''))"

definition empty_est_Write :: "estimator_call list \<Rightarrow> CAutoFile \<Rightarrow> CAutoFile \<times> exn option" where
  "empty_est_Write est f = (f, None)"

theorem fee_estimates_io_witness:
  "WriteFeeEstimates 110000 empty_est_Write empty_pool (File []) = (True, File [109900, 110000])
   \<and> read_int (File [120000, 1]) = Inr (120000, File [1])
   \<and> ReadFeeEstimates 110000 failing_est_Read empty_pool (File [120000, 1, 7])
       = (False, empty_pool, File [7])
   \<and> ReadFeeEstimates 110000 failing_est_Read empty_pool (File [120000])
       = (False, empty_pool, File [])
   \<and> ReadFeeEstimates 110000 failing_est_Read empty_pool NullFile = (False, empty_pool, NullFile)
   \<and> fst (ReadFeeEstimates 110000 failing_est_Read empty_pool (File [109900, 110000, 7])) = False"
proof -
  have r: "read_int (File [120000, 1]) = Inr (120000, File [1])"
    "read_int NullFile = Inl (ios_base_failure ''CAutoFile::read: file handle is NULL'')"
    "read_int (File [120000]) = Inr (120000, File [])"
    "read_int (File []) = Inl (ios_base_failure ''CAutoFile::read: end of file'')"
    by (simp_all add: read_int_def)
  have e: "snd (failing_est_Read (File [7]) (minerPolicyEstimator empty_pool))
      = Some (runtime_error ''Corrupt estimates file'')"
    by (simp add: failing_est_Read_def)
  from fee_estimates_io [of 110000 empty_est_Write empty_pool "[]" failing_est_Read "File []"]
  have 0: "WriteFeeEstimates 110000 empty_est_Write empty_pool (File [])
      = (True, File [109900, 110000])"
    by (simp add: empty_est_Write_def)
  from fee_estimates_io [of 110000 empty_est_Write empty_pool "[]" failing_est_Read
      "File [120000, 1, 7]"]
  have 1: "ReadFeeEstimates 110000 failing_est_Read empty_pool (File [120000, 1, 7])
       = (False, empty_pool, File [7])"
    by simp
  from fee_estimates_io [of 110000 empty_est_Write empty_pool "[]" failing_est_Read
      "File [120000]"] r
  have 2: "ReadFeeEstimates 110000 failing_est_Read empty_pool (File [120000])
       = (False, empty_pool, File [])"
    by simp
  from fee_estimates_io [of 110000 empty_est_Write empty_pool "[]" failing_est_Read NullFile] r
  have 3: "ReadFeeEstimates 110000 failing_est_Read empty_pool NullFile
      = (False, empty_pool, NullFile)"
    by simp
  from fee_estimates_io [of 110000 empty_est_Write empty_pool "[]" failing_est_Read
      "File [109900, 110000, 7]"] e
  have 4: "fst (ReadFeeEstimates 110000 failing_est_Read empty_pool (File [109900, 110000, 7]))
      = False"
    by simp
  from r(1) 0 1 2 3 4 show ?thesis by simp
qed

end
